theory Spec2Isabelle
  imports Main "HOL-Library.AList"
begin

section \<open>rununtil: run until signalled to stop\<close>

text \<open>
  A shallow embedding of \<^verbatim>\<open>rununtil.go\<close>. The Go runtime state the package touches is
  made explicit in a record: the global canceller with its map, the channels created by
  \<^verbatim>\<open>make\<close>, the subscriptions held by \<^verbatim>\<open>os/signal\<close>, and the state of the
  application that runners and shutdown functions act on.

  Everything that happens outside the goroutine running \<^verbatim>\<open>AwaitKillSignals\<close> (a signal
  delivered by the operating system, what the process does with a signal nobody asked
  for, another goroutine calling \<^verbatim>\<open>CancelAll\<close>, the value \<^verbatim>\<open>uuid.New\<close> draws, the choice
  \<^verbatim>\<open>select\<close> makes when two cases are ready) is an input of the model, collected in the
  record \<open>env\<close>.
\<close>

subsection \<open>Data\<close>

text \<open>
  \<^verbatim>\<open>os.Signal\<close>. The signals treated are the ones the package names (\<^verbatim>\<open>syscall.SIGINT\<close>
  and \<^verbatim>\<open>syscall.SIGTERM\<close> in \<open>AwaitKillSignal\<close>, \<^verbatim>\<open>syscall.SIGKILL\<close> and
  \<^verbatim>\<open>syscall.SIGHUP\<close> in its documentation) and three more, \<open>SIGQUIT\<close>, \<open>SIGUSR1\<close> and
  \<open>SIGUSR2\<close>. The signals that stop and continue a process are left out.
\<close>

datatype os_signal = SIGHUP | SIGINT | SIGQUIT | SIGKILL | SIGUSR1 | SIGUSR2 | SIGTERM

text \<open>
  A channel value is the address \<^verbatim>\<open>make\<close> returned. The two channel types of the package
  live in two heaps: a \<^verbatim>\<open>chan struct{}\<close> is only ever closed, so its state is the closed
  flag; a \<^verbatim>\<open>chan os.Signal\<close> is buffered, so its state is its capacity and its queue.
\<close>

type_synonym chan = nat

text \<open>
  \<^verbatim>\<open>type canceller struct { signals map[string]chan struct{}; mux sync.Mutex }\<close>.
  The map is an association list with distinct keys. Every method locks \<^verbatim>\<open>mux\<close> on entry
  and unlocks it on exit, so a method body is a critical section: the model runs it as one
  state transformer and has no field for the lock.
\<close>

record canceller =
  signals :: "(string \<times> chan) list"

record 's world =
  globalCanceller :: canceller
  done_chans :: "bool list"
  sig_chans :: "(nat \<times> os_signal list) list"
  handlers :: "(chan \<times> os_signal list) list"
  app :: 's

text \<open>The run-time panics the package can meet.\<close>

datatype panic = Close_of_nil_channel | Close_of_closed_channel

text \<open>
  How a call ends: it returns, it is still blocked when the events the environment
  supplies are used up, the process panics, or a signal ends the process. A process that
  a signal has ended has no state left.
\<close>

datatype 's result =
  Returned "'s world" | Blocked "'s world" | Panicked panic "'s world" | Terminated os_signal

text \<open>
  \<^verbatim>\<open>type ShutdownFunc func()\<close> and \<^verbatim>\<open>type RunnerFunc func() ShutdownFunc\<close>: a runner
  acts on the application state and hands back the function that stops what it started.
\<close>

type_synonym 's ShutdownFunc = "'s \<Rightarrow> 's"

type_synonym 's RunnerFunc = "'s \<Rightarrow> 's ShutdownFunc \<times> 's"

subsection \<open>Channels\<close>

text \<open>\<^verbatim>\<open>make(chan struct{})\<close> and \<^verbatim>\<open>make(chan os.Signal, n)\<close>.\<close>

definition make_done_chan :: "'s world \<Rightarrow> chan \<times> 's world" where
  "make_done_chan w = (length (done_chans w), w\<lparr>done_chans := done_chans w @ [False]\<rparr>)"

definition make_sig_chan :: "nat \<Rightarrow> 's world \<Rightarrow> chan \<times> 's world" where
  "make_sig_chan n w = (length (sig_chans w), w\<lparr>sig_chans := sig_chans w @ [(n, [])]\<rparr>)"

text \<open>\<^verbatim>\<open>close(c)\<close> panics on a channel that is already closed.\<close>

definition close_chan :: "chan \<Rightarrow> 's world \<Rightarrow> 's result" where
  "close_chan c w =
     (if length (done_chans w) \<le> c then Panicked Close_of_nil_channel w
      else if done_chans w ! c then Panicked Close_of_closed_channel w
      else Returned (w\<lparr>done_chans := (done_chans w)[c := True]\<rparr>))"

subsection \<open>The canceller\<close>

text \<open>\<^verbatim>\<open>canc.signals[key] = c\<close>\<close>

definition addChannel :: "string \<Rightarrow> chan \<Rightarrow> 's world \<Rightarrow> 's world" where
  "addChannel key c w =
     w\<lparr>globalCanceller := (globalCanceller w)\<lparr>signals := AList.update key c (signals (globalCanceller w))\<rparr>\<rparr>"

text \<open>\<^verbatim>\<open>delete(canc.signals, key)\<close>\<close>

definition delete_key :: "string \<Rightarrow> 's world \<Rightarrow> 's world" where
  "delete_key key w =
     w\<lparr>globalCanceller := (globalCanceller w)\<lparr>signals := AList.delete key (signals (globalCanceller w))\<rparr>\<rparr>"

text \<open>
  The loop of \<^verbatim>\<open>cancelAll\<close>, over the keys still to visit:
  \<^verbatim>\<open>for key := range canc.signals { close(canc.signals[key]); delete(canc.signals, key) }\<close>.
  Indexing the map with a key it does not hold gives the nil channel, and closing that
  panics.
\<close>

fun cancel_keys :: "string list \<Rightarrow> 's world \<Rightarrow> 's result" where
  "cancel_keys [] w = Returned w"
| "cancel_keys (key # keys) w =
     (case map_of (signals (globalCanceller w)) key of
        None \<Rightarrow> Panicked Close_of_nil_channel w
      | Some c \<Rightarrow>
          (case close_chan c w of
             Returned w' \<Rightarrow> cancel_keys keys (delete_key key w')
           | Blocked w' \<Rightarrow> Blocked w'
           | Panicked p w' \<Rightarrow> Panicked p w'
           | Terminated s \<Rightarrow> Terminated s))"

text \<open>
  \<^verbatim>\<open>range\<close> visits every key of the map once, in an order Go leaves open; the only entry
  the body deletes is the one being visited. \<open>cancelAll\<close> visits the keys in the order of
  the association list; \<open>cancel_keys\<close> takes any other order.
\<close>

definition cancelAll :: "'s world \<Rightarrow> 's result" where
  "cancelAll w = cancel_keys (map fst (signals (globalCanceller w))) w"

text \<open>\<^verbatim>\<open>func init()\<close>: the global canceller starts with an empty map.\<close>

definition init :: "'s \<Rightarrow> 's world" where
  "init s = \<lparr>globalCanceller = \<lparr>signals = []\<rparr>, done_chans = [], sig_chans = [],
             handlers = [], app = s\<rparr>"

text \<open>\<^verbatim>\<open>func CancelAll() { globalCanceller.cancelAll() }\<close>\<close>

definition CancelAll :: "'s world \<Rightarrow> 's result" where
  "CancelAll w = cancelAll w"

subsection \<open>Signals\<close>

text \<open>
  \<open>SIGKILL\<close> cannot be caught: the operating system ends the process, and no handler of
  the process ever sees the signal. (Nor can \<open>SIGSTOP\<close>, which is not among the signals
  treated.)
\<close>

definition catchable :: "os_signal \<Rightarrow> bool" where
  "catchable s = (s \<noteq> SIGKILL)"

text \<open>
  \<^verbatim>\<open>signal.Notify(c, sig...)\<close> of the standard library: the package relays incoming
  signals to \<open>c\<close>; with no signals given, all incoming signals are relayed, otherwise just
  the given ones. A signal that cannot be caught never comes in, whether it was named or
  not. \<open>Notify\<close> has no result and reports no error; it panics on a nil channel only, and
  the channel it is given on line 139 comes from \<^verbatim>\<open>make\<close> on line 138.
\<close>

definition wants :: "os_signal list \<Rightarrow> os_signal \<Rightarrow> bool" where
  "wants sigs s = (catchable s \<and> (sigs = [] \<or> s \<in> set sigs))"

definition Notify :: "chan \<Rightarrow> os_signal list \<Rightarrow> 's world \<Rightarrow> 's world" where
  "Notify c sigs w = w\<lparr>handlers := handlers w @ [(c, sigs)]\<rparr>"

text \<open>
  \<^verbatim>\<open>select { case c <- sig: default: }\<close>, the non-blocking send of the signal package: a
  signal that finds the buffer full is dropped.
\<close>

definition send_nb :: "os_signal \<Rightarrow> chan \<Rightarrow> (nat \<times> os_signal list) list \<Rightarrow> (nat \<times> os_signal list) list" where
  "send_nb s c chs =
     (if c < length chs \<and> length (snd (chs ! c)) < fst (chs ! c)
      then chs[c := (fst (chs ! c), snd (chs ! c) @ [s])]
      else chs)"

definition relay :: "os_signal \<Rightarrow> chan \<times> os_signal list \<Rightarrow> (nat \<times> os_signal list) list \<Rightarrow> (nat \<times> os_signal list) list" where
  "relay s h chs = (if wants (snd h) s then send_nb s (fst h) chs else chs)"

text \<open>A signal is watched when some subscription asks for it.\<close>

definition watched :: "(chan \<times> os_signal list) list \<Rightarrow> os_signal \<Rightarrow> bool" where
  "watched hs s = list_ex (\<lambda>h. wants (snd h) s) hs"

text \<open>
  What the process does with a signal that can be caught and that no channel watches is
  not decided by the package but by the Go runtime and by the dispositions the process
  was started with: the process exits, or the signal has no effect. It is a parameter.
\<close>

datatype disposition = Exit | Discard

text \<open>
  A signal comes in. One that cannot be caught ends the process. One that is watched is
  offered to every handler, and that replaces what the process would do otherwise. One
  that nobody watches is dealt with as the process disposes.
\<close>

definition deliver :: "(os_signal \<Rightarrow> disposition) \<Rightarrow> os_signal \<Rightarrow> 's world \<Rightarrow> 's result" where
  "deliver d s w =
     (if \<not> catchable s then Terminated s
      else if watched (handlers w) s
      then Returned (w\<lparr>sig_chans := fold (relay s) (handlers w) (sig_chans w)\<rparr>)
      else (case d s of Exit \<Rightarrow> Terminated s | Discard \<Rightarrow> Returned w))"

text \<open>
  The dispositions of a Go program started in the ordinary way, as the documentation of
  \<^verbatim>\<open>os/signal\<close> gives them: \<open>SIGHUP\<close>, \<open>SIGINT\<close> and \<open>SIGTERM\<close> cause the program to exit,
  \<open>SIGQUIT\<close> causes it to exit with a stack dump, and \<open>SIGUSR1\<close> and \<open>SIGUSR2\<close> are caught
  with no action taken. The entry for \<open>SIGKILL\<close> is never consulted.
\<close>

fun go_default :: "os_signal \<Rightarrow> disposition" where
  "go_default SIGHUP = Exit"
| "go_default SIGINT = Exit"
| "go_default SIGQUIT = Exit"
| "go_default SIGKILL = Exit"
| "go_default SIGUSR1 = Discard"
| "go_default SIGUSR2 = Discard"
| "go_default SIGTERM = Exit"

subsection \<open>The environment\<close>

text \<open>
  What other goroutines and the operating system do while a call is under way: a signal
  comes in, or somebody calls \<^verbatim>\<open>CancelAll\<close>.
\<close>

datatype env_event = Deliver os_signal | Cancel

definition apply_event :: "(os_signal \<Rightarrow> disposition) \<Rightarrow> env_event \<Rightarrow> 's world \<Rightarrow> 's result" where
  "apply_event d e w = (case e of Deliver s \<Rightarrow> deliver d s w | Cancel \<Rightarrow> CancelAll w)"

fun apply_events :: "(os_signal \<Rightarrow> disposition) \<Rightarrow> env_event list \<Rightarrow> 's world \<Rightarrow> 's result" where
  "apply_events d [] w = Returned w"
| "apply_events d (e # es) w =
     (case apply_event d e w of
        Returned w' \<Rightarrow> apply_events d es w'
      | Blocked w' \<Rightarrow> Blocked w'
      | Panicked p w' \<Rightarrow> Panicked p w'
      | Terminated s \<Rightarrow> Terminated s)"

text \<open>
  \<open>unwatched\<close>: what the process does with a signal no channel watches; \<open>new_uuid\<close>: the
  string of the value \<^verbatim>\<open>uuid.New()\<close> returns; \<open>before_select\<close>: the events between the
  registration of \<open>finish\<close> and the moment the goroutine reaches \<^verbatim>\<open>select\<close>;
  \<open>during_wait\<close>: the events after that, up to the return of the call;
  \<open>pick_signal\<close>: the case \<^verbatim>\<open>select\<close> takes when both are ready on
  entry.
\<close>

record env =
  unwatched :: "os_signal \<Rightarrow> disposition"
  new_uuid :: string
  before_select :: "env_event list"
  during_wait :: "env_event list"
  pick_signal :: bool

subsection \<open>The wait\<close>

definition ready_signal :: "chan \<Rightarrow> 's world \<Rightarrow> bool" where
  "ready_signal c w = (c < length (sig_chans w) \<and> snd (sig_chans w ! c) \<noteq> [])"

definition ready_finish :: "chan \<Rightarrow> 's world \<Rightarrow> bool" where
  "ready_finish f w = (f < length (done_chans w) \<and> done_chans w ! f)"

text \<open>\<^verbatim>\<open>case <-c\<close> takes the signal out of the buffer; \<^verbatim>\<open>case <-finish\<close> on a closed channel
  takes nothing.\<close>

definition recv_signal :: "chan \<Rightarrow> 's world \<Rightarrow> 's world" where
  "recv_signal c w =
     w\<lparr>sig_chans := (sig_chans w)[c := (fst (sig_chans w ! c), tl (snd (sig_chans w ! c)))]\<rparr>"

text \<open>
  A goroutine blocked in \<^verbatim>\<open>select\<close> sleeps until an event makes one of the two cases
  ready, and then proceeds with that case. The result comes with the events that are
  still to take place.
\<close>

fun block_on ::
  "(os_signal \<Rightarrow> disposition) \<Rightarrow> chan \<Rightarrow> chan \<Rightarrow> env_event list \<Rightarrow> 's world \<Rightarrow> 's result \<times> env_event list" where
  "block_on d c finish [] w = (Blocked w, [])"
| "block_on d c finish (e # es) w =
     (case apply_event d e w of
        Returned w' \<Rightarrow>
          (if ready_signal c w' then (Returned (recv_signal c w'), es)
           else if ready_finish finish w' then (Returned w', es)
           else block_on d c finish es w')
      | Blocked w' \<Rightarrow> (Blocked w', es)
      | Panicked p w' \<Rightarrow> (Panicked p w', es)
      | Terminated s \<Rightarrow> (Terminated s, es))"

text \<open>
  \<^verbatim>\<open>select { case <-c: break; case <-finish: break }\<close>: when both cases are ready on entry
  the runtime picks one of them; when one is, that one is taken; when none is, the
  goroutine blocks.
\<close>

definition select_wait ::
  "(os_signal \<Rightarrow> disposition) \<Rightarrow> chan \<Rightarrow> chan \<Rightarrow> bool \<Rightarrow> env_event list \<Rightarrow> 's world \<Rightarrow> 's result \<times> env_event list" where
  "select_wait d c finish pick es w =
     (if ready_signal c w \<and> ready_finish finish w
      then (if pick then (Returned (recv_signal c w), es) else (Returned w, es))
      else if ready_signal c w then (Returned (recv_signal c w), es)
      else if ready_finish finish w then (Returned w, es)
      else block_on d c finish es w)"

subsection \<open>AwaitKillSignals\<close>

text \<open>
  \<^verbatim>\<open>for _, runner := range runnerFuncs { shutdown := runner(); defer shutdown() }\<close>: each
  \<^verbatim>\<open>defer\<close> pushes the shutdown function on the stack of deferred calls of the
  surrounding function.
\<close>

fun start_runners :: "'s RunnerFunc list \<Rightarrow> 's ShutdownFunc list \<Rightarrow> 's \<Rightarrow> 's ShutdownFunc list \<times> 's" where
  "start_runners [] deferred s = (deferred, s)"
| "start_runners (runner # runnerFuncs) deferred s =
     (case runner s of (shutdown, s') \<Rightarrow> start_runners runnerFuncs (shutdown # deferred) s')"

text \<open>When the function returns, the deferred calls run from the top of the stack down.\<close>

fun run_deferred :: "'s ShutdownFunc list \<Rightarrow> 's \<Rightarrow> 's" where
  "run_deferred [] s = s"
| "run_deferred (shutdown # deferred) s = run_deferred deferred (shutdown s)"

text \<open>Lines 141 to 143: \<^verbatim>\<open>finish := make(chan struct{}); uuid := uuid.New();
  globalCanceller.addChannel(uuid.String(), finish)\<close>.\<close>

definition register_finish :: "string \<Rightarrow> 's world \<Rightarrow> chan \<times> 's world" where
  "register_finish uuid w =
     (case make_done_chan w of (finish, w') \<Rightarrow> (finish, addChannel uuid finish w'))"

text \<open>
  The state in which the goroutine reaches \<^verbatim>\<open>select\<close>: subscribed, registered, all
  runners started. The events of \<open>before_select\<close> touch the runtime state only and the
  runners the application state only, so the events are applied after the loop.
\<close>

definition startup ::
  "os_signal list \<Rightarrow> 's RunnerFunc list \<Rightarrow> env \<Rightarrow> 's world \<Rightarrow> (chan \<times> chan \<times> 's ShutdownFunc list) \<times> 's result" where
  "startup sigs runnerFuncs e w =
     (case make_sig_chan 1 w of (c, w1) \<Rightarrow>
      (case register_finish (new_uuid e) (Notify c sigs w1) of (finish, w3) \<Rightarrow>
       (case start_runners runnerFuncs [] (app w3) of (deferred, s) \<Rightarrow>
          ((c, finish, deferred),
           apply_events (unwatched e) (before_select e) (w3\<lparr>app := s\<rparr>)))))"

text \<open>
  The function returns and its deferred calls run. The events still to take place do so
  meanwhile: they touch the runtime state only and the shutdown functions the
  application state only, so the events are applied first. A signal that ends the
  process now does so before the call has returned.
\<close>

definition return_from ::
  "(os_signal \<Rightarrow> disposition) \<Rightarrow> 's ShutdownFunc list \<Rightarrow> env_event list \<Rightarrow> 's world \<Rightarrow> 's result" where
  "return_from d deferred es w =
     (case apply_events d es w of
        Returned w' \<Rightarrow> Returned (w'\<lparr>app := run_deferred deferred (app w')\<rparr>)
      | Blocked w' \<Rightarrow> Blocked w'
      | Panicked p w' \<Rightarrow> Panicked p w'
      | Terminated s \<Rightarrow> Terminated s)"

text \<open>Lines 150 to 157: the \<^verbatim>\<open>select\<close>, and the end of the function.\<close>

definition wait_and_return ::
  "(os_signal \<Rightarrow> disposition) \<Rightarrow> chan \<Rightarrow> chan \<Rightarrow> bool \<Rightarrow> 's ShutdownFunc list \<Rightarrow> env_event list \<Rightarrow> 's world \<Rightarrow> 's result" where
  "wait_and_return d c finish pick deferred es w =
     (case select_wait d c finish pick es w of
        (Returned w', rest) \<Rightarrow> return_from d deferred rest w'
      | (Blocked w', rest) \<Rightarrow> Blocked w'
      | (Panicked p w', rest) \<Rightarrow> Panicked p w'
      | (Terminated s, rest) \<Rightarrow> Terminated s)"

definition AwaitKillSignals :: "os_signal list \<Rightarrow> 's RunnerFunc list \<Rightarrow> env \<Rightarrow> 's world \<Rightarrow> 's result" where
  "AwaitKillSignals sigs runnerFuncs e w =
     (case startup sigs runnerFuncs e w of
        ((c, finish, deferred), Returned w') \<Rightarrow>
          wait_and_return (unwatched e) c finish (pick_signal e) deferred (during_wait e) w'
      | (_, Blocked w') \<Rightarrow> Blocked w'
      | (_, Panicked p w') \<Rightarrow> Panicked p w'
      | (_, Terminated s) \<Rightarrow> Terminated s)"

text \<open>\<^verbatim>\<open>AwaitKillSignals([]os.Signal{syscall.SIGINT, syscall.SIGTERM}, runnerFuncs...)\<close>\<close>

definition AwaitKillSignal :: "'s RunnerFunc list \<Rightarrow> env \<Rightarrow> 's world \<Rightarrow> 's result" where
  "AwaitKillSignal runnerFuncs e w = AwaitKillSignals [SIGINT, SIGTERM] runnerFuncs e w"

text \<open>The deprecated \<^verbatim>\<open>KillSignal(runner)\<close> and \<^verbatim>\<open>Signals(runner, signals...)\<close>.\<close>

definition KillSignal :: "'s RunnerFunc \<Rightarrow> env \<Rightarrow> 's world \<Rightarrow> 's result" where
  "KillSignal runner e w = AwaitKillSignal [runner] e w"

definition Signals :: "'s RunnerFunc \<Rightarrow> os_signal list \<Rightarrow> env \<Rightarrow> 's world \<Rightarrow> 's result" where
  "Signals runner sigs e w = AwaitKillSignals sigs [runner] e w"

subsection \<open>Well-formed states\<close>

abbreviation regs :: "'s world \<Rightarrow> (string \<times> chan) list" where
  "regs w \<equiv> signals (globalCanceller w)"

text \<open>
  The registry invariant: the keys of the map are distinct (it is a map), no channel is
  registered under two keys, and every registered channel exists and is not closed.
\<close>

definition registry_inv :: "'s world \<Rightarrow> bool" where
  "registry_inv w =
     (distinct (map fst (regs w)) \<and> distinct (map snd (regs w)) \<and>
      list_all (\<lambda>c. c < length (done_chans w) \<and> \<not> done_chans w ! c) (map snd (regs w)))"

text \<open>Two worlds for the examples: a registry with two waiting calls, and an empty one.\<close>

definition two_waiting :: "unit world" where
  "two_waiting = \<lparr>globalCanceller = \<lparr>signals = [(''u1'', 0), (''u2'', 2)]\<rparr>,
                   done_chans = [False, True, False], sig_chans = [], handlers = [], app = ()\<rparr>"

text \<open>A property of the state a result carries, when it carries one.\<close>

fun holds :: "('s world \<Rightarrow> bool) \<Rightarrow> 's result \<Rightarrow> bool" where
  "holds P (Returned w) = P w"
| "holds P (Blocked w) = P w"
| "holds P (Panicked p w) = P w"
| "holds P (Terminated s) = True"

text \<open>
  What the events and the wait leave alone: the application state, the subscriptions and
  the number of signal channels.
\<close>

definition untouched :: "'s world \<Rightarrow> 's world \<Rightarrow> bool" where
  "untouched w w' =
     (app w' = app w \<and> handlers w' = handlers w \<and> length (sig_chans w') = length (sig_chans w))"

text \<open>What signals leave alone: the registry and the closed flags.\<close>

definition same_registry :: "'s world \<Rightarrow> 's world \<Rightarrow> bool" where
  "same_registry w w' = (globalCanceller w' = globalCanceller w \<and> done_chans w' = done_chans w)"

subsection \<open>The specification of the runner loop\<close>

text \<open>
  The words of the specification: invoke each runner in the given order, collecting the
  shutdown callback it returns into an ordered list. The result is that list, first
  runner first, and the application state after the last runner.
\<close>

fun invoke_in_order :: "'s RunnerFunc list \<Rightarrow> 's \<Rightarrow> 's ShutdownFunc list \<times> 's" where
  "invoke_in_order [] s = ([], s)"
| "invoke_in_order (runner # runners) s =
     (case runner s of (shutdown, s') \<Rightarrow>
        (case invoke_in_order runners s' of (shutdowns, s'') \<Rightarrow> (shutdown # shutdowns, s'')))"

subsection \<open>Runners and environments for the examples\<close>

text \<open>
  An application whose state is a log: the runner called \<open>name\<close> writes that it started,
  and the shutdown function it returns writes that it stopped.
\<close>

definition started :: "string \<Rightarrow> string" where
  "started name = ''start '' @ name"

definition stopped :: "string \<Rightarrow> string" where
  "stopped name = ''stop '' @ name"

definition logging_runner :: "string \<Rightarrow> string list RunnerFunc" where
  "logging_runner name s = (\<lambda>s'. s' @ [stopped name], s @ [started name])"

text \<open>\<open>SIGUSR1\<close> comes in, then another goroutine calls \<^verbatim>\<open>CancelAll\<close>.\<close>

definition cancelled_later :: env where
  "cancelled_later = \<lparr>unwatched = go_default, new_uuid = ''u1'', before_select = [],
                      during_wait = [Deliver SIGUSR1, Cancel], pick_signal = False\<rparr>"

text \<open>\<open>SIGUSR1\<close> and \<open>SIGUSR2\<close> come in and nobody calls \<^verbatim>\<open>CancelAll\<close>.\<close>

definition never_signalled :: env where
  "never_signalled = \<lparr>unwatched = go_default, new_uuid = ''u1'', before_select = [Deliver SIGUSR1],
                      during_wait = [Deliver SIGUSR2], pick_signal = True\<rparr>"


subsection \<open>Sequences of registry operations\<close>

text \<open>
  The two things the program does to the registry: a call of \<open>AwaitKillSignals\<close>
  registers a channel it has just made, under the identifier \<^verbatim>\<open>uuid.New\<close> gave it, and
  a call of \<open>CancelAll\<close> sweeps the map.
\<close>

datatype registry_op = Register string | Cancel_all

fun run_ops :: "registry_op list \<Rightarrow> 's world \<Rightarrow> 's result" where
  "run_ops [] w = Returned w"
| "run_ops (Register uuid # ops) w = run_ops ops (snd (register_finish uuid w))"
| "run_ops (Cancel_all # ops) w =
     (case cancelAll w of
        Returned w' \<Rightarrow> run_ops ops w'
      | Blocked w' \<Rightarrow> Blocked w'
      | Panicked p w' \<Rightarrow> Panicked p w'
      | Terminated s \<Rightarrow> Terminated s)"

subsection \<open>The states of a waiting call\<close>

text \<open>Every subscription of the signal package names a channel that exists.\<close>

definition handlers_inv :: "'s world \<Rightarrow> bool" where
  "handlers_inv w = list_all (\<lambda>h. fst h < length (sig_chans w)) (handlers w)"

text \<open>
  The wake condition of a call that watches \<open>sigs\<close>: a signal the subscription relays
  comes in, or \<^verbatim>\<open>CancelAll\<close> is called.
\<close>

definition wake_event :: "os_signal list \<Rightarrow> env_event \<Rightarrow> bool" where
  "wake_event sigs ev = (case ev of Deliver s \<Rightarrow> wants sigs s | Cancel \<Rightarrow> True)"

text \<open>
  An event that ends the process, given the subscriptions \<open>hs\<close> in force: a signal that
  cannot be caught, or one that nobody watches and on which the process exits.
\<close>

definition fatal_event :: "(os_signal \<Rightarrow> disposition) \<Rightarrow> (chan \<times> os_signal list) list \<Rightarrow> env_event \<Rightarrow> bool" where
  "fatal_event d hs ev =
     (case ev of
        Deliver s \<Rightarrow> \<not> catchable s \<or> (\<not> watched hs s \<and> d s = Exit)
      | Cancel \<Rightarrow> False)"

text \<open>
  What the events hold for a call, from its registration to its return: when one of
  them ends the process the call never returns; otherwise it returns when one of them
  is a wake event, and waits when none is.
\<close>

datatype fate = Wakes | Waits | Dies

definition fate_of :: "os_signal list \<Rightarrow> env \<Rightarrow> 's world \<Rightarrow> fate" where
  "fate_of sigs e w =
     (if list_ex (fatal_event (unwatched e) (handlers w @ [(length (sig_chans w), sigs)]))
           (before_select e @ during_wait e) then Dies
      else if list_ex (wake_event sigs) (before_select e @ during_wait e) then Wakes
      else Waits)"

text \<open>
  A call that waits with nothing to wake it: its signal channel \<open>c\<close> exists, has room and
  is empty, the signal package holds the one subscription of \<open>c\<close>, to \<open>sigs\<close>, and its
  channel \<open>finish\<close> is registered under \<open>uuid\<close> (and so is open).
\<close>

definition waiting_inv :: "chan \<Rightarrow> chan \<Rightarrow> string \<Rightarrow> os_signal list \<Rightarrow> 's world \<Rightarrow> bool" where
  "waiting_inv c finish uuid sigs w =
     (registry_inv w \<and> c < length (sig_chans w) \<and> 0 < fst (sig_chans w ! c) \<and>
      snd (sig_chans w ! c) = [] \<and> filter (\<lambda>h. fst h = c) (handlers w) = [(c, sigs)] \<and>
      map_of (regs w) uuid = Some finish)"

text \<open>A call with a case of its \<^verbatim>\<open>select\<close> ready.\<close>

definition woken_inv :: "chan \<Rightarrow> chan \<Rightarrow> 's world \<Rightarrow> bool" where
  "woken_inv c finish w = (registry_inv w \<and> (ready_signal c w \<or> ready_finish finish w))"

text \<open>
  The state right after line 148, before any event: the channel \<open>c\<close> made and subscribed,
  \<open>finish\<close> made and registered, the runners invoked.
\<close>

definition at_select :: "os_signal list \<Rightarrow> 's RunnerFunc list \<Rightarrow> string \<Rightarrow> 's world \<Rightarrow> 's world" where
  "at_select sigs rs uuid w =
     w\<lparr>sig_chans := sig_chans w @ [(1, [])],
       handlers := handlers w @ [(length (sig_chans w), sigs)],
       done_chans := done_chans w @ [False],
       globalCanceller := (globalCanceller w)
         \<lparr>signals := AList.update uuid (length (done_chans w)) (regs w)\<rparr>,
       app := snd (invoke_in_order rs (app w))\<rparr>"

text \<open>\<open>SIGTERM\<close> comes in and nobody calls \<^verbatim>\<open>CancelAll\<close>.\<close>

definition interrupted :: env where
  "interrupted = \<lparr>unwatched = go_default, new_uuid = ''u3'', before_select = [],
                  during_wait = [Deliver SIGTERM], pick_signal = True\<rparr>"

text \<open>\<open>SIGHUP\<close> comes in and nobody calls \<^verbatim>\<open>CancelAll\<close>.\<close>

definition hung_up :: env where
  "hung_up = \<lparr>unwatched = go_default, new_uuid = ''u1'', before_select = [],
              during_wait = [Deliver SIGHUP], pick_signal = True\<rparr>"


section \<open>Properties\<close>

subsection \<open>The canceller\<close>

lemma regs_delete_key [simp]: "regs (delete_key k w) = AList.delete k (regs w)"
  by (simp add: delete_key_def)

lemma delete_key_fields [simp]:
  "done_chans (delete_key k w) = done_chans w"
  "sig_chans (delete_key k w) = sig_chans w"
  "handlers (delete_key k w) = handlers w"
  "app (delete_key k w) = app w"
  by (simp_all add: delete_key_def)

lemma close_chan_open:
  "c < length (done_chans w) \<Longrightarrow> \<not> done_chans w ! c \<Longrightarrow>
   close_chan c w = Returned (w\<lparr>done_chans := (done_chans w)[c := True]\<rparr>)"
  by (simp add: close_chan_def)

text \<open>One turn of the loop keeps the invariant: the channel it closes is the one it deletes.\<close>

lemma registry_inv_step:
  assumes inv: "registry_inv w" and k: "map_of (regs w) k = Some c"
  shows "registry_inv (delete_key k (w\<lparr>done_chans := (done_chans w)[c := True]\<rparr>))"
proof -
  let ?r = "regs w"
  have dk: "distinct (map fst ?r)" and dv: "distinct (map snd ?r)"
    and op: "list_all (\<lambda>c. c < length (done_chans w) \<and> \<not> done_chans w ! c) (map snd ?r)"
    using inv by (simp_all add: registry_inv_def)
  have kc: "(k, c) \<in> set ?r" using k by (rule map_of_SomeD)
  have notc: "\<And>k' c'. (k', c') \<in> set (AList.delete k ?r) \<Longrightarrow> c' \<noteq> c"
  proof
    fix k' c' assume m: "(k', c') \<in> set (AList.delete k ?r)" and e: "c' = c"
    from m have m': "(k', c') \<in> set ?r" and ne: "k' \<noteq> k"
      by (auto simp: AList.delete_eq)
    from dv kc m' e have "k' = k"
      by (metis distinct_map inj_onD prod.inject snd_conv prod.collapse)
    with ne show False by simp
  qed
  have d1: "distinct (map fst (AList.delete k ?r))" using dk by (rule distinct_delete)
  have d2: "distinct (map snd (AList.delete k ?r))"
    using dv by (simp add: AList.delete_eq distinct_map_filter)
  have d3: "list_all (\<lambda>c'. c' < length (done_chans w) \<and> \<not> (done_chans w)[c := True] ! c')
              (map snd (AList.delete k ?r))"
    using op notc by (fastforce simp: list_all_iff AList.delete_eq)
  show ?thesis using d1 d2 d3 by (simp add: registry_inv_def)
qed

text \<open>
  The loop over any list of distinct registered keys: it does not panic, it removes
  exactly the entries of those keys, and it closes exactly their channels.
\<close>

lemma cancel_keys_sweeps:
  assumes "registry_inv w" and "distinct ks" and "set ks \<subseteq> fst ` set (regs w)"
  shows "\<exists>D. cancel_keys ks w =
             Returned (w\<lparr>globalCanceller := (globalCanceller w)
                           \<lparr>signals := filter (\<lambda>kv. fst kv \<notin> set ks) (regs w)\<rparr>,
                         done_chans := D\<rparr>) \<and>
           length D = length (done_chans w) \<and>
           (\<forall>i < length (done_chans w).
              D ! i = (done_chans w ! i \<or> (\<exists>k \<in> set ks. map_of (regs w) k = Some i)))"
  using assms
proof (induction ks arbitrary: w)
  case Nil
  have "w\<lparr>globalCanceller := (globalCanceller w)\<lparr>signals := regs w\<rparr>, done_chans := done_chans w\<rparr> = w"
    by simp
  then show ?case by (intro exI [of _ "done_chans w"]) simp
next
  case (Cons k ks)
  from Cons.prems(3) obtain c where kc: "map_of (regs w) k = Some c"
    by (metis (no_types, lifting) list.set_intros(1) subsetD domD dom_map_of_conv_image_fst)
  have kin: "(k, c) \<in> set (regs w)" using kc by (rule map_of_SomeD)
  have c_open: "c < length (done_chans w)" "\<not> done_chans w ! c"
    using Cons.prems(1) kin by (auto simp: registry_inv_def list_all_iff)
  let ?w1 = "delete_key k (w\<lparr>done_chans := (done_chans w)[c := True]\<rparr>)"
  have step: "cancel_keys (k # ks) w = cancel_keys ks ?w1"
    using kc c_open by (simp add: close_chan_open)
  have inv1: "registry_inv ?w1" using Cons.prems(1) kc by (rule registry_inv_step)
  have sub1: "set ks \<subseteq> fst ` set (regs ?w1)"
    using Cons.prems(2,3) by (force simp: AList.delete_eq)
  from Cons.IH [OF inv1 _ sub1] Cons.prems(2)
  obtain D where ret: "cancel_keys ks ?w1 =
        Returned (?w1\<lparr>globalCanceller := (globalCanceller ?w1)
                        \<lparr>signals := filter (\<lambda>kv. fst kv \<notin> set ks) (regs ?w1)\<rparr>,
                      done_chans := D\<rparr>)"
    and len: "length D = length (done_chans ?w1)"
    and nth: "\<forall>i < length (done_chans ?w1).
          D ! i = (done_chans ?w1 ! i \<or> (\<exists>k' \<in> set ks. map_of (regs ?w1) k' = Some i))"
    by auto
  have regs_eq: "filter (\<lambda>kv. fst kv \<notin> set ks) (regs ?w1) =
                 filter (\<lambda>kv. fst kv \<notin> set (k # ks)) (regs w)"
    by (auto simp: AList.delete_eq intro: filter_cong)
  have flags: "D ! i = (done_chans w ! i \<or> (\<exists>k' \<in> set (k # ks). map_of (regs w) k' = Some i))"
    if i: "i < length (done_chans w)" for i
  proof -
    have a: "D ! i = ((done_chans w)[c := True] ! i \<or>
               (\<exists>k' \<in> set ks. map_of (AList.delete k (regs w)) k' = Some i))"
      using nth i by simp
    have b: "(done_chans w)[c := True] ! i = (done_chans w ! i \<or> i = c)"
      using i by (cases "i = c") simp_all
    have c: "(\<exists>k' \<in> set ks. map_of (AList.delete k (regs w)) k' = Some i) =
             (\<exists>k' \<in> set ks. map_of (regs w) k' = Some i)"
      using Cons.prems(2) by (auto simp: AList.delete_conv)
    show ?thesis using a b c kc by auto
  qed
  have shape: "?w1\<lparr>globalCanceller := (globalCanceller ?w1)
                        \<lparr>signals := filter (\<lambda>kv. fst kv \<notin> set ks) (regs ?w1)\<rparr>,
                      done_chans := D\<rparr> =
               w\<lparr>globalCanceller := (globalCanceller w)
                        \<lparr>signals := filter (\<lambda>kv. fst kv \<notin> set (k # ks)) (regs w)\<rparr>,
                      done_chans := D\<rparr>"
    unfolding regs_eq [symmetric] by (simp add: delete_key_def)
  show ?case
    using step ret len flags unfolding shape by (intro exI [of _ D]) simp
qed

lemma cancelAll_sweeps:
  assumes "registry_inv w"
  shows "\<exists>D. cancelAll w =
             Returned (w\<lparr>globalCanceller := (globalCanceller w)\<lparr>signals := []\<rparr>, done_chans := D\<rparr>) \<and>
           length D = length (done_chans w) \<and>
           (\<forall>i < length (done_chans w). D ! i = (done_chans w ! i \<or> i \<in> snd ` set (regs w)))"
proof -
  have dk: "distinct (map fst (regs w))" using assms by (simp add: registry_inv_def)
  from cancel_keys_sweeps [OF assms dk]
  obtain D where ret: "cancel_keys (map fst (regs w)) w =
        Returned (w\<lparr>globalCanceller := (globalCanceller w)
                        \<lparr>signals := filter (\<lambda>kv. fst kv \<notin> set (map fst (regs w))) (regs w)\<rparr>,
                      done_chans := D\<rparr>)"
    and len: "length D = length (done_chans w)"
    and nth: "\<forall>i < length (done_chans w).
          D ! i = (done_chans w ! i \<or> (\<exists>k \<in> set (map fst (regs w)). map_of (regs w) k = Some i))"
    by auto
  have f: "filter (\<lambda>kv. fst kv \<notin> set (map fst (regs w))) (regs w) = []"
    by (auto simp: filter_empty_conv)
  have m: "(\<exists>k \<in> set (map fst (regs w)). map_of (regs w) k = Some i) = (i \<in> snd ` set (regs w))" for i
  proof
    assume "\<exists>k \<in> set (map fst (regs w)). map_of (regs w) k = Some i"
    then obtain k where "map_of (regs w) k = Some i" by blast
    then have "(k, i) \<in> set (regs w)" by (rule map_of_SomeD)
    then show "i \<in> snd ` set (regs w)" by force
  next
    assume "i \<in> snd ` set (regs w)"
    then obtain k where ki: "(k, i) \<in> set (regs w)" by auto
    then have "map_of (regs w) k = Some i" using dk by simp
    with ki show "\<exists>k \<in> set (map fst (regs w)). map_of (regs w) k = Some i" by force
  qed
  show ?thesis
    using ret len nth unfolding f m cancelAll_def by (intro exI [of _ D]) simp
qed

text \<open>
  Go leaves the order of a \<^verbatim>\<open>range\<close> over a map open. The loop of \<open>cancelAll\<close> gives the
  same result in whatever order it meets the keys.
\<close>

lemma key_of_channel:
  assumes "distinct (map fst r)"
  shows "(\<exists>k \<in> fst ` set r. map_of r k = Some i) = (i \<in> snd ` set r)"
proof
  assume "\<exists>k \<in> fst ` set r. map_of r k = Some i"
  then obtain k where "map_of r k = Some i" by blast
  then have "(k, i) \<in> set r" by (rule map_of_SomeD)
  then show "i \<in> snd ` set r" by force
next
  assume "i \<in> snd ` set r"
  then obtain k where ki: "(k, i) \<in> set r" by auto
  then have "map_of r k = Some i" using assms by simp
  with ki show "\<exists>k \<in> fst ` set r. map_of r k = Some i" by force
qed

lemma cancelAll_any_order:
  assumes inv: "registry_inv w" and d: "distinct ks" and s: "set ks = fst ` set (regs w)"
  shows "cancel_keys ks w = cancelAll w"
proof -
  have sub: "set ks \<subseteq> fst ` set (regs w)" using s by simp
  from cancel_keys_sweeps [OF inv d sub] obtain D where
    1: "cancel_keys ks w =
          Returned (w\<lparr>globalCanceller := (globalCanceller w)
                        \<lparr>signals := filter (\<lambda>kv. fst kv \<notin> set ks) (regs w)\<rparr>,
                      done_chans := D\<rparr>)"
    and l1: "length D = length (done_chans w)"
    and n1: "\<forall>i < length (done_chans w).
               D ! i = (done_chans w ! i \<or> (\<exists>k \<in> set ks. map_of (regs w) k = Some i))"
    by blast
  from cancelAll_sweeps [OF inv] obtain D' where
    2: "cancelAll w =
          Returned (w\<lparr>globalCanceller := (globalCanceller w)\<lparr>signals := []\<rparr>, done_chans := D'\<rparr>)"
    and l2: "length D' = length (done_chans w)"
    and n2: "\<forall>i < length (done_chans w). D' ! i = (done_chans w ! i \<or> i \<in> snd ` set (regs w))"
    by blast
  have dk: "distinct (map fst (regs w))" using inv by (simp add: registry_inv_def)
  have f: "filter (\<lambda>kv. fst kv \<notin> set ks) (regs w) = []"
    using s by (auto simp: filter_empty_conv)
  have "D = D'"
  proof (rule nth_equalityI)
    show "length D = length D'" using l1 l2 by simp
  next
    fix i assume "i < length D"
    then have i: "i < length (done_chans w)" using l1 by simp
    show "D ! i = D' ! i"
      using n1 n2 i key_of_channel [OF dk, of i] unfolding s by simp
  qed
  with 1 2 f show ?thesis by simp
qed

text \<open>
  C2. On a registry that satisfies the invariant, \<open>cancelAll\<close> returns without a panic;
  the map is empty afterwards and nothing else but the closed flags has changed; every
  channel that was registered was open and is closed now, and every other channel is as
  it was. Go panics on the second \<^verbatim>\<open>close\<close> of a channel, so a run without panic has
  closed each of them once. With no entries the call returns the state it was given.
\<close>

theorem cancelAll_closes_each_once_and_empties:
  assumes "registry_inv w"
  shows "\<exists>D. cancelAll w =
             Returned (w\<lparr>globalCanceller := (globalCanceller w)\<lparr>signals := []\<rparr>, done_chans := D\<rparr>) \<and>
           length D = length (done_chans w) \<and>
           (\<forall>c \<in> snd ` set (regs w). c < length D \<and> \<not> done_chans w ! c \<and> D ! c) \<and>
           (\<forall>i < length D. i \<notin> snd ` set (regs w) \<longrightarrow> D ! i = done_chans w ! i) \<and>
           (regs w = [] \<longrightarrow> cancelAll w = Returned w)"
proof -
  from cancelAll_sweeps [OF assms]
  obtain D where ret: "cancelAll w =
        Returned (w\<lparr>globalCanceller := (globalCanceller w)\<lparr>signals := []\<rparr>, done_chans := D\<rparr>)"
    and len: "length D = length (done_chans w)"
    and nth: "\<forall>i < length (done_chans w). D ! i = (done_chans w ! i \<or> i \<in> snd ` set (regs w))"
    by auto
  have reg: "\<forall>c \<in> snd ` set (regs w). c < length D \<and> \<not> done_chans w ! c \<and> D ! c"
  proof
    fix c assume c: "c \<in> snd ` set (regs w)"
    then have "c < length (done_chans w) \<and> \<not> done_chans w ! c"
      using assms by (auto simp: registry_inv_def list_all_iff)
    then show "c < length D \<and> \<not> done_chans w ! c \<and> D ! c"
      using c len nth by simp
  qed
  have other: "\<forall>i < length D. i \<notin> snd ` set (regs w) \<longrightarrow> D ! i = done_chans w ! i"
    using len nth by simp
  have none: "regs w = [] \<longrightarrow> cancelAll w = Returned w"
    by (simp add: cancelAll_def)
  show ?thesis using ret len reg other none by (intro exI [of _ D]) simp
qed

theorem cancelAll_closes_each_once_and_empties_witness:
  "registry_inv two_waiting \<and>
   cancelAll two_waiting =
     Returned \<lparr>globalCanceller = \<lparr>signals = []\<rparr>, done_chans = [True, True, True],
               sig_chans = [], handlers = [], app = ()\<rparr>"
proof -
  have h: "registry_inv two_waiting"
    by (simp add: registry_inv_def two_waiting_def)
  from cancelAll_closes_each_once_and_empties [OF h]
  have "\<exists>D. cancelAll two_waiting =
          Returned (two_waiting\<lparr>globalCanceller := (globalCanceller two_waiting)\<lparr>signals := []\<rparr>,
                                done_chans := D\<rparr>)"
    by blast
  moreover have "cancelAll two_waiting =
     Returned \<lparr>globalCanceller = \<lparr>signals = []\<rparr>, done_chans = [True, True, True],
               sig_chans = [], handlers = [], app = ()\<rparr>"
    by (simp add: cancelAll_def two_waiting_def close_chan_def delete_key_def)
  ultimately show ?thesis using h by simp
qed

subsection \<open>The entry points\<close>

text \<open>
  C6. \<open>AwaitKillSignal\<close> is \<open>AwaitKillSignals\<close> with the signals \<open>SIGINT\<close> and \<open>SIGTERM\<close> and
  the same runners; \<open>KillSignal\<close> passes its runner to \<open>AwaitKillSignal\<close> and \<open>Signals\<close>
  passes its runner and its signals to \<open>AwaitKillSignals\<close>, and neither does anything else.
\<close>

theorem aliases_pass_through:
  "AwaitKillSignal runnerFuncs e w = AwaitKillSignals [SIGINT, SIGTERM] runnerFuncs e w \<and>
   KillSignal runner e w = AwaitKillSignal [runner] e w \<and>
   KillSignal runner e w = AwaitKillSignals [SIGINT, SIGTERM] [runner] e w \<and>
   Signals runner sigs e w = AwaitKillSignals sigs [runner] e w"
  by (simp add: AwaitKillSignal_def KillSignal_def Signals_def)

subsection \<open>Runners and shutdown functions\<close>

text \<open>The loop pushes the callbacks the specification collects, last runner on top.\<close>

lemma start_runners_invoke:
  "start_runners rs deferred s =
     (rev (fst (invoke_in_order rs s)) @ deferred, snd (invoke_in_order rs s))"
  by (induction rs arbitrary: deferred s) (auto split: prod.splits)

lemma run_deferred_rev:
  "run_deferred (rev shutdowns) s = foldr (\<lambda>shutdown s. shutdown s) shutdowns s"
  by (induction shutdowns arbitrary: s rule: rev_induct) simp_all


text \<open>Nothing but runners and shutdown functions touches the application state.\<close>

lemma holds_mono: "holds P r \<Longrightarrow> (\<And>w. P w \<Longrightarrow> Q w) \<Longrightarrow> holds Q r"
  by (cases r) simp_all

lemma untouched_refl [simp]: "untouched w w"
  by (simp add: untouched_def)

lemma untouched_trans: "untouched w w1 \<Longrightarrow> untouched w1 w2 \<Longrightarrow> untouched w w2"
  by (simp add: untouched_def)

lemma untouched_close_chan: "holds (untouched w) (close_chan c w)"
  by (simp add: close_chan_def untouched_def)

lemma untouched_delete_key [simp]: "untouched w (delete_key k w') = untouched w w'"
  by (simp add: untouched_def)

lemma untouched_cancel_keys: "holds (untouched w) (cancel_keys ks w)"
proof (induction ks arbitrary: w)
  case Nil
  then show ?case by simp
next
  case (Cons k ks)
  show ?case
  proof (cases "map_of (regs w) k")
    case None
    then show ?thesis by simp
  next
    case (Some c)
    show ?thesis
    proof (cases "close_chan c w")
      case (Returned w1)
      with untouched_close_chan [of w c] have u: "untouched w (delete_key k w1)" by simp
      have "holds (untouched w) (cancel_keys ks (delete_key k w1))"
        using Cons.IH [of "delete_key k w1"] untouched_trans [OF u] by (rule holds_mono)
      then show ?thesis using Some Returned by simp
    next
      case (Blocked w1)
      then show ?thesis using Some untouched_close_chan [of w c] by simp
    next
      case (Panicked p w1)
      then show ?thesis using Some untouched_close_chan [of w c] by simp
    next
      case (Terminated s)
      then show ?thesis using Some by simp
    qed
  qed
qed

lemma length_send_nb [simp]: "length (send_nb s c chs) = length chs"
  by (simp add: send_nb_def)

lemma length_relay [simp]: "length (relay s h chs) = length chs"
  by (simp add: relay_def)

lemma length_fold_relay [simp]: "length (fold (relay s) hs chs) = length chs"
  by (induction hs arbitrary: chs) simp_all

lemma untouched_deliver: "holds (untouched w) (deliver d s w)"
  by (cases "d s") (simp_all add: deliver_def untouched_def)

lemma untouched_apply_event: "holds (untouched w) (apply_event d ev w)"
  by (cases ev) (simp_all add: apply_event_def untouched_deliver CancelAll_def cancelAll_def
      untouched_cancel_keys)

lemma untouched_apply_events: "holds (untouched w) (apply_events d es w)"
proof (induction es arbitrary: w)
  case Nil
  then show ?case by simp
next
  case (Cons ev es)
  show ?case
  proof (cases "apply_event d ev w")
    case (Returned w1)
    with untouched_apply_event [of w d ev] have u: "untouched w w1" by simp
    have "holds (untouched w) (apply_events d es w1)"
      using Cons.IH [of w1] untouched_trans [OF u] by (rule holds_mono)
    then show ?thesis using Returned by simp
  next
    case (Blocked w1)
    then show ?thesis using untouched_apply_event [of w d ev] by simp
  next
    case (Panicked p w1)
    then show ?thesis using untouched_apply_event [of w d ev] by simp
  next
    case (Terminated s)
    then show ?thesis by simp
  qed
qed

lemma untouched_recv_signal [simp]: "untouched w (recv_signal c w') = untouched w w'"
  by (simp add: untouched_def recv_signal_def)

lemma untouched_block_on: "holds (untouched w) (fst (block_on d c finish es w))"
proof (induction es arbitrary: w)
  case Nil
  then show ?case by simp
next
  case (Cons ev es)
  show ?case
  proof (cases "apply_event d ev w")
    case (Returned w1)
    with untouched_apply_event [of w d ev] have u: "untouched w w1" by simp
    have "holds (untouched w) (fst (block_on d c finish es w1))"
      using Cons.IH [of w1] untouched_trans [OF u] by (rule holds_mono)
    then show ?thesis using Returned u by simp
  next
    case (Blocked w1)
    then show ?thesis using untouched_apply_event [of w d ev] by simp
  next
    case (Panicked p w1)
    then show ?thesis using untouched_apply_event [of w d ev] by simp
  next
    case (Terminated s)
    then show ?thesis by simp
  qed
qed

lemma untouched_select_wait: "holds (untouched w) (fst (select_wait d c finish pick es w))"
  by (simp add: select_wait_def untouched_block_on)


text \<open>What the call has done when it reaches \<^verbatim>\<open>select\<close>.\<close>

lemma startup_eq:
  "startup sigs rs e w =
     ((length (sig_chans w), length (done_chans w), rev (fst (invoke_in_order rs (app w)))),
      apply_events (unwatched e) (before_select e) (at_select sigs rs (new_uuid e) w))"
  by (simp add: startup_def make_sig_chan_def Notify_def register_finish_def make_done_chan_def
      addChannel_def start_runners_invoke at_select_def)

lemma app_at_select [simp]: "app (at_select sigs rs uuid w) = snd (invoke_in_order rs (app w))"
  by (simp add: at_select_def)

lemma startup_shape:
  "\<exists>c finish r. startup sigs rs e w = ((c, finish, rev (fst (invoke_in_order rs (app w)))), r) \<and>
     holds (\<lambda>w'. app w' = snd (invoke_in_order rs (app w))) r"
proof -
  let ?w3 = "at_select sigs rs (new_uuid e) w"
  have "holds (\<lambda>w'. app w' = snd (invoke_in_order rs (app w)))
          (apply_events (unwatched e) (before_select e) ?w3)"
    using untouched_apply_events [of ?w3 "unwatched e" "before_select e"]
    by (rule holds_mono) (simp add: untouched_def)
  then show ?thesis unfolding startup_eq by blast
qed

lemma await_cases:
  "AwaitKillSignals sigs rs e w =
     (case apply_events (unwatched e) (before_select e) (at_select sigs rs (new_uuid e) w) of
        Returned w1 \<Rightarrow>
          wait_and_return (unwatched e) (length (sig_chans w)) (length (done_chans w))
            (pick_signal e) (rev (fst (invoke_in_order rs (app w)))) (during_wait e) w1
      | Blocked w1 \<Rightarrow> Blocked w1
      | Panicked p w1 \<Rightarrow> Panicked p w1
      | Terminated s \<Rightarrow> Terminated s)"
  by (simp add: AwaitKillSignals_def startup_eq split: result.splits)

text \<open>
  The application state a call leaves: after a return, every callback has run, the last
  runner's first; as long as it is blocked the runners have run and no callback has.
\<close>

lemma return_from_app:
  "return_from d deferred es w = Returned w' \<Longrightarrow> app w' = run_deferred deferred (app w)"
  "return_from d deferred es w = Blocked w' \<Longrightarrow> app w' = app w"
  using untouched_apply_events [of w d es]
  by (cases "apply_events d es w"; simp add: return_from_def untouched_def; force)+

lemma wait_and_return_app:
  "wait_and_return d c finish pick deferred es w = Returned w' \<Longrightarrow>
     app w' = run_deferred deferred (app w)"
  "wait_and_return d c finish pick deferred es w = Blocked w' \<Longrightarrow> app w' = app w"
proof -
  obtain r rest where sw: "select_wait d c finish pick es w = (r, rest)"
    by (cases "select_wait d c finish pick es w")
  have u: "holds (untouched w) r"
    using untouched_select_wait [of w d c finish pick es] sw by simp
  show "app w' = run_deferred deferred (app w)"
    if "wait_and_return d c finish pick deferred es w = Returned w'"
    using that sw u return_from_app(1) [of d deferred rest _ w']
    by (cases r) (auto simp: wait_and_return_def untouched_def)
  show "app w' = app w" if "wait_and_return d c finish pick deferred es w = Blocked w'"
    using that sw u return_from_app(2) [of d deferred rest _ w']
    by (cases r) (auto simp: wait_and_return_def untouched_def)
qed

lemma invoke_logging:
  "invoke_in_order (map logging_runner names) s =
     (map (\<lambda>name s'. s' @ [stopped name]) names, s @ map started names)"
  by (induction names arbitrary: s) (simp_all add: logging_runner_def)

lemma foldr_logging:
  "foldr (\<lambda>shutdown s. shutdown s) (map (\<lambda>name s'. s' @ [stopped name]) names) s =
     s @ map stopped (rev names)"
  by (induction names arbitrary: s) simp_all

lemmas await_unfold =
  AwaitKillSignals_def startup_def wait_and_return_def return_from_def make_sig_chan_def
  Notify_def register_finish_def make_done_chan_def addChannel_def logging_runner_def
  init_def select_wait_def
  ready_signal_def ready_finish_def recv_signal_def apply_event_def deliver_def relay_def
  wants_def watched_def catchable_def send_nb_def CancelAll_def cancelAll_def close_chan_def
  delete_key_def

lemma returned_after_callbacks:
  assumes "AwaitKillSignals sigs rs e w = Returned w'"
  shows "app w' = foldr (\<lambda>shutdown s. shutdown s) (fst (invoke_in_order rs (app w)))
                    (snd (invoke_in_order rs (app w)))"
proof -
  let ?w3 = "at_select sigs rs (new_uuid e) w"
  let ?r = "apply_events (unwatched e) (before_select e) ?w3"
  from assms obtain w1 where r: "?r = Returned w1"
    and wr: "wait_and_return (unwatched e) (length (sig_chans w)) (length (done_chans w))
               (pick_signal e) (rev (fst (invoke_in_order rs (app w)))) (during_wait e) w1 =
             Returned w'"
    unfolding await_cases by (cases ?r) simp_all
  have "app w1 = snd (invoke_in_order rs (app w))"
    using untouched_apply_events [of ?w3 "unwatched e" "before_select e"] r
    by (simp add: untouched_def)
  with wait_and_return_app(1) [OF wr] show ?thesis by (simp add: run_deferred_rev)
qed

lemma blocked_after_runners:
  assumes "AwaitKillSignals sigs rs e w = Blocked w'"
  shows "app w' = snd (invoke_in_order rs (app w))"
proof -
  let ?w3 = "at_select sigs rs (new_uuid e) w"
  let ?r = "apply_events (unwatched e) (before_select e) ?w3"
  have u: "holds (untouched ?w3) ?r"
    by (rule untouched_apply_events)
  show ?thesis
  proof (cases ?r)
    case (Returned w1)
    with u have a: "app w1 = snd (invoke_in_order rs (app w))" by (simp add: untouched_def)
    from assms Returned
    have "wait_and_return (unwatched e) (length (sig_chans w)) (length (done_chans w))
               (pick_signal e) (rev (fst (invoke_in_order rs (app w)))) (during_wait e) w1 =
             Blocked w'"
      unfolding await_cases by simp
    from wait_and_return_app(2) [OF this] a show ?thesis by simp
  next
    case (Blocked w1)
    with assms u show ?thesis unfolding await_cases by (simp add: untouched_def)
  next
    case (Panicked p w1)
    with assms show ?thesis unfolding await_cases by simp
  next
    case (Terminated s)
    with assms show ?thesis unfolding await_cases by simp
  qed
qed

text \<open>
  C7. The loop of \<open>AwaitKillSignals\<close> does what the specification says: it calls the
  runners one after the other in the order given, each on the state its predecessor
  left, and keeps the callbacks in that order (the stack of deferred calls is the
  collected list reversed). The state in which the call reaches \<^verbatim>\<open>select\<close>, and so the
  state of a call that is still blocked, is the one after the last runner: all runners
  have been invoked before the wait begins. For runners that log, the log is the list
  of their names in the order given.
\<close>

theorem runners_started_in_order_before_wait:
  "start_runners rs [] s = (rev (fst (invoke_in_order rs s)), snd (invoke_in_order rs s)) \<and>
   (\<exists>c finish r. startup sigs rs e w = ((c, finish, rev (fst (invoke_in_order rs (app w)))), r) \<and>
      holds (\<lambda>w'. app w' = snd (invoke_in_order rs (app w))) r) \<and>
   (AwaitKillSignals sigs rs e w = Blocked w' \<longrightarrow> app w' = snd (invoke_in_order rs (app w))) \<and>
   (\<forall>names. rs = map logging_runner names \<longrightarrow>
      snd (invoke_in_order rs s) = s @ map started names)"
proof -
  have a: "start_runners rs [] s = (rev (fst (invoke_in_order rs s)), snd (invoke_in_order rs s))"
    by (simp add: start_runners_invoke)
  have b: "\<exists>c finish r. startup sigs rs e w = ((c, finish, rev (fst (invoke_in_order rs (app w)))), r) \<and>
      holds (\<lambda>w'. app w' = snd (invoke_in_order rs (app w))) r"
    by (rule startup_shape)
  have c: "AwaitKillSignals sigs rs e w = Blocked w' \<longrightarrow> app w' = snd (invoke_in_order rs (app w))"
    using blocked_after_runners by blast
  have d: "\<forall>names. rs = map logging_runner names \<longrightarrow>
      snd (invoke_in_order rs s) = s @ map started names"
    by (simp add: invoke_logging)
  from a b c d show ?thesis by blast
qed

theorem runners_started_in_order_before_wait_witness:
  "AwaitKillSignals [SIGINT, SIGTERM] (map logging_runner [''A'', ''B'']) never_signalled (init []) =
     Blocked \<lparr>globalCanceller = \<lparr>signals = [(''u1'', 0)]\<rparr>, done_chans = [False],
              sig_chans = [(1, [])], handlers = [(0, [SIGINT, SIGTERM])],
              app = [started ''A'', started ''B'']\<rparr> \<and>
   [started ''A'', started ''B''] = snd (invoke_in_order (map logging_runner [''A'', ''B'']) (app (init [])))"
proof -
  let ?W = "\<lparr>globalCanceller = \<lparr>signals = [(''u1'', 0)]\<rparr>, done_chans = [False],
              sig_chans = [(1, [])], handlers = [(0, [SIGINT, SIGTERM])],
              app = [started ''A'', started ''B'']\<rparr>"
  have h: "AwaitKillSignals [SIGINT, SIGTERM] (map logging_runner [''A'', ''B''])
             never_signalled (init []) = Blocked ?W"
    by (simp add: await_unfold never_signalled_def)
  from runners_started_in_order_before_wait
         [of "map logging_runner [''A'', ''B'']" "[]" "[SIGINT, SIGTERM]" never_signalled "init []" ?W]
  have "AwaitKillSignals [SIGINT, SIGTERM] (map logging_runner [''A'', ''B'']) never_signalled (init []) =
          Blocked ?W \<longrightarrow>
        app ?W = snd (invoke_in_order (map logging_runner [''A'', ''B'']) (app (init [])))"
    by blast
  with h show ?thesis by simp
qed

subsection \<open>The registry invariant\<close>

lemma update_values: "snd ` set (AList.update k c r) \<subseteq> insert c (snd ` set r)"
  by (induction r) auto

lemma distinct_update_values:
  "distinct (map snd r) \<Longrightarrow> c \<notin> snd ` set r \<Longrightarrow> distinct (map snd (AList.update k c r))"
proof (induction r)
  case Nil
  then show ?case by simp
next
  case (Cons kv r)
  then show ?case
    using update_values [of k c r] by (cases kv) (auto simp: image_iff)
qed

lemma registry_inv_addChannel:
  assumes inv: "registry_inv w" and c: "c < length (done_chans w)" "\<not> done_chans w ! c"
    and fresh: "c \<notin> snd ` set (regs w)"
  shows "registry_inv (addChannel key c w)"
proof -
  have dk: "distinct (map fst (AList.update key c (regs w)))"
    using inv by (simp add: registry_inv_def distinct_update)
  have dv: "distinct (map snd (AList.update key c (regs w)))"
    using inv fresh by (simp add: registry_inv_def distinct_update_values)
  have old: "\<forall>c' \<in> snd ` set (regs w). c' < length (done_chans w) \<and> \<not> done_chans w ! c'"
    using inv by (auto simp: registry_inv_def list_all_iff)
  have "\<forall>c' \<in> snd ` set (AList.update key c (regs w)).
          c' < length (done_chans w) \<and> \<not> done_chans w ! c'"
  proof
    fix c' assume "c' \<in> snd ` set (AList.update key c (regs w))"
    then have "c' = c \<or> c' \<in> snd ` set (regs w)"
      using update_values [of key c "regs w"] by blast
    then show "c' < length (done_chans w) \<and> \<not> done_chans w ! c'"
      using c old by blast
  qed
  then have op: "list_all (\<lambda>c. c < length (done_chans w) \<and> \<not> done_chans w ! c)
              (map snd (AList.update key c (regs w)))"
    by (simp add: list_all_iff)
  show ?thesis using dk dv op by (simp add: registry_inv_def addChannel_def)
qed

lemma registry_inv_make:
  assumes "registry_inv w"
  shows "registry_inv (snd (make_done_chan w))"
  using assms by (auto simp: registry_inv_def make_done_chan_def list_all_iff nth_append)

lemma registry_inv_register:
  assumes "registry_inv w"
  shows "registry_inv (snd (register_finish uuid w))"
proof -
  let ?w1 = "snd (make_done_chan w)" and ?c = "length (done_chans w)"
  have i1: "registry_inv ?w1" using assms by (rule registry_inv_make)
  have c1: "?c < length (done_chans ?w1)" "\<not> done_chans ?w1 ! ?c"
    by (simp_all add: make_done_chan_def)
  have fr: "?c \<notin> snd ` set (regs ?w1)"
    using assms by (auto simp: registry_inv_def make_done_chan_def list_all_iff)
  have "registry_inv (addChannel uuid ?c ?w1)"
    using i1 c1 fr by (rule registry_inv_addChannel)
  then show ?thesis by (simp add: register_finish_def make_done_chan_def)
qed

lemma registry_inv_cancelAll:
  assumes "registry_inv w"
  shows "\<exists>w'. cancelAll w = Returned w' \<and> registry_inv w' \<and> regs w' = []"
proof -
  from cancelAll_sweeps [OF assms] obtain D where
    "cancelAll w = Returned (w\<lparr>globalCanceller := (globalCanceller w)\<lparr>signals := []\<rparr>, done_chans := D\<rparr>)"
    by blast
  then show ?thesis by (simp add: registry_inv_def)
qed

lemma run_ops_inv:
  assumes "registry_inv w"
  shows "\<exists>w'. run_ops ops w = Returned w' \<and> registry_inv w'"
  using assms
proof (induction ops arbitrary: w)
  case Nil
  then show ?case by simp
next
  case (Cons op ops)
  show ?case
  proof (cases op)
    case (Register uuid)
    then show ?thesis
      using Cons.IH [OF registry_inv_register [OF Cons.prems, of uuid]] by simp
  next
    case Cancel_all
    from registry_inv_cancelAll [OF Cons.prems] obtain w1
      where w1: "cancelAll w = Returned w1" "registry_inv w1" by blast
    then show ?thesis using Cancel_all Cons.IH [OF w1(2)] by simp
  qed
qed

lemma registry_inv_init: "registry_inv (init s)"
  by (simp add: registry_inv_def init_def)

text \<open>
  C3. The registry invariant (the entries of the map hold distinct channels, all of them
  open) is preserved by the registration \<open>AwaitKillSignals\<close> performs (a channel fresh
  from \<^verbatim>\<open>make\<close>, stored by \<open>addChannel\<close>), by \<open>addChannel\<close> for any key and any open
  channel not yet registered, and by \<open>cancelAll\<close>, which returns without a panic. So
  every sequence of registrations and sweeps, from any state that satisfies the
  invariant and in particular from the initial state, runs to its end without a panic:
  no channel is closed twice, and the invariant holds at the end.
\<close>

theorem registry_invariant_preserved:
  assumes "registry_inv w"
  shows "registry_inv (snd (register_finish uuid w)) \<and>
         (c < length (done_chans w) \<and> \<not> done_chans w ! c \<and> c \<notin> snd ` set (regs w) \<longrightarrow>
            registry_inv (addChannel key c w)) \<and>
         (\<exists>w'. cancelAll w = Returned w' \<and> registry_inv w') \<and>
         (\<exists>w'. run_ops ops w = Returned w' \<and> registry_inv w') \<and>
         (\<exists>w'. run_ops ops (init s) = Returned w' \<and> registry_inv w')"
  using registry_inv_register [OF assms, of uuid] registry_inv_addChannel [OF assms, of c key]
    registry_inv_cancelAll [OF assms] run_ops_inv [OF assms, of ops]
    run_ops_inv [OF registry_inv_init, of ops s]
  by blast

theorem registry_invariant_preserved_witness:
  "registry_inv two_waiting \<and>
   run_ops [Register ''u3'', Cancel_all, Register ''u4''] two_waiting =
     Returned \<lparr>globalCanceller = \<lparr>signals = [(''u4'', 4)]\<rparr>,
               done_chans = [True, True, True, True, False], sig_chans = [],
               handlers = [], app = ()\<rparr> \<and>
   registry_inv \<lparr>globalCanceller = \<lparr>signals = [(''u4'', 4)]\<rparr>,
                 done_chans = [True, True, True, True, False], sig_chans = [],
                 handlers = [], app = ()\<rparr>"
proof -
  let ?W = "\<lparr>globalCanceller = \<lparr>signals = [(''u4'', 4)]\<rparr>,
              done_chans = [True, True, True, True, False], sig_chans = [],
              handlers = [], app = ()\<rparr>"
  have h: "registry_inv two_waiting"
    by (simp add: registry_inv_def two_waiting_def)
  have r: "run_ops [Register ''u3'', Cancel_all, Register ''u4''] two_waiting = Returned ?W"
    by (simp add: two_waiting_def register_finish_def make_done_chan_def addChannel_def
        cancelAll_def close_chan_def delete_key_def)
  from registry_invariant_preserved
         [OF h, of "''u3''" 1 "''u3''" "[Register ''u3'', Cancel_all, Register ''u4'']" "()"]
  have "\<exists>w'. run_ops [Register ''u3'', Cancel_all, Register ''u4''] two_waiting = Returned w' \<and>
          registry_inv w'"
    by blast
  with r have "registry_inv ?W" by simp
  with h r show ?thesis by simp
qed


subsection \<open>Signals and channels\<close>

lemma relay_other: "fst h \<noteq> c \<Longrightarrow> relay s h chs ! c = chs ! c"
  by (simp add: relay_def send_nb_def)

lemma relay_own:
  "c < length chs \<Longrightarrow>
   relay s (c, sigs) chs ! c =
     (if wants sigs s \<and> length (snd (chs ! c)) < fst (chs ! c)
      then (fst (chs ! c), snd (chs ! c) @ [s]) else chs ! c)"
  by (simp add: relay_def send_nb_def)

lemma relay_keeps_nonempty:
  "c < length chs \<Longrightarrow> snd (chs ! c) \<noteq> [] \<Longrightarrow> snd (relay s h chs ! c) \<noteq> []"
  by (cases "fst h = c") (auto simp: relay_def send_nb_def)

lemma fold_relay_keeps_nonempty:
  "c < length chs \<Longrightarrow> snd (chs ! c) \<noteq> [] \<Longrightarrow> snd (fold (relay s) hs chs ! c) \<noteq> []"
  by (induction hs arbitrary: chs) (simp_all add: relay_keeps_nonempty)

lemma fold_relay_none:
  "filter (\<lambda>h. fst h = c) hs = [] \<Longrightarrow> fold (relay s) hs chs ! c = chs ! c"
proof (induction hs arbitrary: chs)
  case Nil
  then show ?case by simp
next
  case (Cons h hs)
  then have "fst h \<noteq> c" and "filter (\<lambda>h. fst h = c) hs = []"
    by (auto split: if_splits)
  then show ?case using Cons.IH by (simp add: relay_other)
qed

lemma fold_relay_one:
  "filter (\<lambda>h. fst h = c) hs = [(c, sigs)] \<Longrightarrow> c < length chs \<Longrightarrow>
   fold (relay s) hs chs ! c =
     (if wants sigs s \<and> length (snd (chs ! c)) < fst (chs ! c)
      then (fst (chs ! c), snd (chs ! c) @ [s]) else chs ! c)"
proof (induction hs arbitrary: chs)
  case Nil
  then show ?case by simp
next
  case (Cons h hs)
  show ?case
  proof (cases "fst h = c")
    case True
    with Cons.prems(1) have h: "h = (c, sigs)" and rest: "filter (\<lambda>h. fst h = c) hs = []"
      by simp_all
    have "fold (relay s) (h # hs) chs ! c = relay s (c, sigs) chs ! c"
      using h fold_relay_none [OF rest] by simp
    then show ?thesis using Cons.prems(2) by (simp add: relay_own)
  next
    case False
    with Cons.prems(1) have rest: "filter (\<lambda>h. fst h = c) hs = [(c, sigs)]" by simp
    have same: "relay s h chs ! c = chs ! c" using False by (rule relay_other)
    have "fold (relay s) (h # hs) chs ! c = fold (relay s) hs (relay s h chs) ! c" by simp
    also have "\<dots> = (if wants sigs s \<and> length (snd (relay s h chs ! c)) < fst (relay s h chs ! c)
      then (fst (relay s h chs ! c), snd (relay s h chs ! c) @ [s]) else relay s h chs ! c)"
      using Cons.IH [OF rest, of "relay s h chs"] Cons.prems(2) by simp
    finally show ?thesis by (simp add: same)
  qed
qed

text \<open>A signal nobody watches reaches no channel.\<close>

lemma fold_relay_unwatched: "\<not> watched hs s \<Longrightarrow> fold (relay s) hs chs = chs"
  by (induction hs arbitrary: chs) (simp_all add: watched_def relay_def)

lemma watched_catchable: "watched hs s \<Longrightarrow> catchable s"
  by (auto simp: watched_def list_ex_iff wants_def)

text \<open>
  The state after a signal has been offered to the handlers, and the two things a
  signal can do: end the process, or leave it in that state.
\<close>

lemma deliver_eq:
  "deliver d s w =
     (if fatal_event d (handlers w) (Deliver s) then Terminated s
      else Returned (w\<lparr>sig_chans := fold (relay s) (handlers w) (sig_chans w)\<rparr>))"
proof (cases "watched (handlers w) s")
  case True
  then show ?thesis
    using watched_catchable [OF True] by (simp add: deliver_def fatal_event_def)
next
  case False
  have "w\<lparr>sig_chans := fold (relay s) (handlers w) (sig_chans w)\<rparr> = w"
    using fold_relay_unwatched [OF False] by simp
  then show ?thesis
    using False by (cases "d s") (simp_all add: deliver_def fatal_event_def)
qed

lemma waiting_not_ready:
  assumes "waiting_inv c finish uuid sigs w"
  shows "\<not> ready_signal c w" and "\<not> ready_finish finish w"
proof -
  show "\<not> ready_signal c w" using assms by (simp add: waiting_inv_def ready_signal_def)
  have "(uuid, finish) \<in> set (regs w)"
    using assms by (auto simp: waiting_inv_def dest: map_of_SomeD)
  then have "\<not> done_chans w ! finish"
    using assms by (auto simp: waiting_inv_def registry_inv_def list_all_iff)
  then show "\<not> ready_finish finish w" by (simp add: ready_finish_def)
qed



lemma relayed_wanted:
  assumes "waiting_inv c finish uuid sigs w" and "wants sigs s"
  shows "woken_inv c finish (w\<lparr>sig_chans := fold (relay s) (handlers w) (sig_chans w)\<rparr>)"
    and "snd (fold (relay s) (handlers w) (sig_chans w) ! c) = [s]"
proof -
  have e: "fold (relay s) (handlers w) (sig_chans w) ! c = (fst (sig_chans w ! c), [s])"
    using assms fold_relay_one [of c "handlers w" sigs "sig_chans w" s]
    by (simp add: waiting_inv_def)
  then show "snd (fold (relay s) (handlers w) (sig_chans w) ! c) = [s]" by simp
  have "ready_signal c (w\<lparr>sig_chans := fold (relay s) (handlers w) (sig_chans w)\<rparr>)"
    using e assms by (simp add: ready_signal_def waiting_inv_def)
  then show "woken_inv c finish (w\<lparr>sig_chans := fold (relay s) (handlers w) (sig_chans w)\<rparr>)"
    using assms by (simp add: woken_inv_def waiting_inv_def registry_inv_def)
qed

lemma relayed_unwanted:
  assumes "waiting_inv c finish uuid sigs w" and "\<not> wants sigs s"
  shows "waiting_inv c finish uuid sigs (w\<lparr>sig_chans := fold (relay s) (handlers w) (sig_chans w)\<rparr>)"
proof -
  have "fold (relay s) (handlers w) (sig_chans w) ! c = sig_chans w ! c"
    using assms fold_relay_one [of c "handlers w" sigs "sig_chans w" s]
    by (simp add: waiting_inv_def)
  then show ?thesis using assms by (simp add: waiting_inv_def registry_inv_def)
qed

lemma relayed_woken:
  assumes "woken_inv c finish w"
  shows "woken_inv c finish (w\<lparr>sig_chans := fold (relay s) (handlers w) (sig_chans w)\<rparr>)"
proof -
  let ?w' = "w\<lparr>sig_chans := fold (relay s) (handlers w) (sig_chans w)\<rparr>"
  have "ready_signal c w \<Longrightarrow> ready_signal c ?w'"
    by (simp add: ready_signal_def fold_relay_keeps_nonempty)
  moreover have "ready_finish finish w \<Longrightarrow> ready_finish finish ?w'"
    by (simp add: ready_finish_def)
  ultimately show ?thesis
    using assms by (auto simp: woken_inv_def registry_inv_def)
qed

lemma cancel_waiting:
  assumes "waiting_inv c finish uuid sigs w"
  shows "\<exists>w'. CancelAll w = Returned w' \<and> woken_inv c finish w' \<and> ready_finish finish w' \<and>
           \<not> ready_signal c w' \<and> regs w' = [] \<and> handlers w' = handlers w"
proof -
  have inv: "registry_inv w" using assms by (simp add: waiting_inv_def)
  from cancelAll_sweeps [OF inv] obtain D where
    ret: "cancelAll w = Returned (w\<lparr>globalCanceller := (globalCanceller w)\<lparr>signals := []\<rparr>, done_chans := D\<rparr>)"
    and len: "length D = length (done_chans w)"
    and nth: "\<forall>i < length (done_chans w). D ! i = (done_chans w ! i \<or> i \<in> snd ` set (regs w))"
    by blast
  let ?w' = "w\<lparr>globalCanceller := (globalCanceller w)\<lparr>signals := []\<rparr>, done_chans := D\<rparr>"
  have reg: "(uuid, finish) \<in> set (regs w)"
    using assms by (auto simp: waiting_inv_def dest: map_of_SomeD)
  then have fin: "finish \<in> snd ` set (regs w)" by force
  then have "finish < length (done_chans w)"
    using inv by (auto simp: registry_inv_def list_all_iff)
  then have rf: "ready_finish finish ?w'"
    using len nth fin by (simp add: ready_finish_def)
  have nrs: "\<not> ready_signal c ?w'"
    using assms by (simp add: ready_signal_def waiting_inv_def)
  have "registry_inv ?w'" by (simp add: registry_inv_def)
  then show ?thesis using ret rf nrs by (simp add: CancelAll_def woken_inv_def)
qed

lemma cancel_woken:
  assumes "woken_inv c finish w"
  shows "\<exists>w'. CancelAll w = Returned w' \<and> woken_inv c finish w' \<and> handlers w' = handlers w"
proof -
  have inv: "registry_inv w" using assms by (simp add: woken_inv_def)
  from cancelAll_sweeps [OF inv] obtain D where
    ret: "cancelAll w = Returned (w\<lparr>globalCanceller := (globalCanceller w)\<lparr>signals := []\<rparr>, done_chans := D\<rparr>)"
    and len: "length D = length (done_chans w)"
    and nth: "\<forall>i < length (done_chans w). D ! i = (done_chans w ! i \<or> i \<in> snd ` set (regs w))"
    by blast
  let ?w' = "w\<lparr>globalCanceller := (globalCanceller w)\<lparr>signals := []\<rparr>, done_chans := D\<rparr>"
  have "ready_signal c w \<Longrightarrow> ready_signal c ?w'" by (simp add: ready_signal_def)
  moreover have "ready_finish finish w \<Longrightarrow> ready_finish finish ?w'"
    using len nth by (simp add: ready_finish_def)
  moreover have "registry_inv ?w'" by (simp add: registry_inv_def)
  ultimately show ?thesis
    using assms ret by (auto simp: CancelAll_def woken_inv_def)
qed

text \<open>One event, on a call that is already woken and on a call that waits.\<close>

lemma woken_event:
  assumes "woken_inv c finish w"
  shows "if fatal_event d (handlers w) ev then \<exists>s. apply_event d ev w = Terminated s
         else \<exists>w'. apply_event d ev w = Returned w' \<and> woken_inv c finish w' \<and>
                handlers w' = handlers w"
proof (cases ev)
  case (Deliver s)
  then show ?thesis
    using relayed_woken [OF assms, of s] by (simp add: apply_event_def deliver_eq)
next
  case Cancel
  then show ?thesis
    using cancel_woken [OF assms] by (simp add: apply_event_def fatal_event_def)
qed

lemma woken_events:
  assumes "woken_inv c finish w"
  shows "if list_ex (fatal_event d (handlers w)) es then \<exists>s. apply_events d es w = Terminated s
         else \<exists>w'. apply_events d es w = Returned w' \<and> woken_inv c finish w' \<and>
                handlers w' = handlers w"
  using assms
proof (induction es arbitrary: w)
  case Nil
  then show ?case by simp
next
  case (Cons ev es)
  show ?case
  proof (cases "fatal_event d (handlers w) ev")
    case True
    with woken_event [OF Cons.prems, of d ev] show ?thesis by auto
  next
    case False
    with woken_event [OF Cons.prems, of d ev] obtain w1
      where 1: "apply_event d ev w = Returned w1" and 2: "woken_inv c finish w1"
        and 3: "handlers w1 = handlers w"
      by auto
    from Cons.IH [OF 2]
    have "if list_ex (fatal_event d (handlers w)) es then \<exists>s. apply_events d es w1 = Terminated s
          else \<exists>w'. apply_events d es w1 = Returned w' \<and> woken_inv c finish w' \<and>
                 handlers w' = handlers w"
      unfolding 3 .
    then show ?thesis
      using 1 False by (cases "list_ex (fatal_event d (handlers w)) es") simp_all
  qed
qed

lemma waiting_event:
  assumes "waiting_inv c finish uuid sigs w"
  shows "if fatal_event d (handlers w) ev then \<exists>s. apply_event d ev w = Terminated s
         else \<exists>w'. apply_event d ev w = Returned w' \<and> handlers w' = handlers w \<and>
                (if wake_event sigs ev then woken_inv c finish w'
                 else waiting_inv c finish uuid sigs w')"
proof (cases ev)
  case (Deliver s)
  then show ?thesis
    using relayed_wanted(1) [OF assms, of s] relayed_unwanted [OF assms, of s]
    by (simp add: apply_event_def deliver_eq wake_event_def)
next
  case Cancel
  then show ?thesis
    using cancel_waiting [OF assms]
    by (auto simp: apply_event_def wake_event_def fatal_event_def)
qed

lemma waiting_events:
  assumes "waiting_inv c finish uuid sigs w"
  shows "if list_ex (fatal_event d (handlers w)) es then \<exists>s. apply_events d es w = Terminated s
         else \<exists>w'. apply_events d es w = Returned w' \<and> handlers w' = handlers w \<and>
                (if list_ex (wake_event sigs) es then woken_inv c finish w'
                 else waiting_inv c finish uuid sigs w')"
  using assms
proof (induction es arbitrary: w)
  case Nil
  then show ?case by simp
next
  case (Cons ev es)
  show ?case
  proof (cases "fatal_event d (handlers w) ev")
    case True
    with waiting_event [OF Cons.prems, of d ev] show ?thesis by auto
  next
    case False
    with waiting_event [OF Cons.prems, of d ev] obtain w1
      where 1: "apply_event d ev w = Returned w1" and 3: "handlers w1 = handlers w"
        and 2: "if wake_event sigs ev then woken_inv c finish w1 else waiting_inv c finish uuid sigs w1"
      by auto
    show ?thesis
    proof (cases "wake_event sigs ev")
      case True
      with 2 have "woken_inv c finish w1" by simp
      from woken_events [OF this, of d es]
      have "if list_ex (fatal_event d (handlers w)) es then \<exists>s. apply_events d es w1 = Terminated s
            else \<exists>w'. apply_events d es w1 = Returned w' \<and> woken_inv c finish w' \<and>
                   handlers w' = handlers w"
        unfolding 3 .
      then show ?thesis
        using 1 True False by (cases "list_ex (fatal_event d (handlers w)) es") auto
    next
      case F: False
      with 2 have "waiting_inv c finish uuid sigs w1" by simp
      from Cons.IH [OF this]
      have "if list_ex (fatal_event d (handlers w)) es then \<exists>s. apply_events d es w1 = Terminated s
            else \<exists>w'. apply_events d es w1 = Returned w' \<and> handlers w' = handlers w \<and>
                   (if list_ex (wake_event sigs) es then woken_inv c finish w'
                    else waiting_inv c finish uuid sigs w')"
        unfolding 3 .
      then show ?thesis
        using 1 F False by (cases "list_ex (fatal_event d (handlers w)) es") simp_all
    qed
  qed
qed

text \<open>
  The events that take place once the call is awake: they end the process or leave a
  well-formed registry.
\<close>

lemma registry_event:
  assumes "registry_inv w"
  shows "if fatal_event d (handlers w) ev then \<exists>s. apply_event d ev w = Terminated s
         else \<exists>w'. apply_event d ev w = Returned w' \<and> registry_inv w' \<and>
                handlers w' = handlers w"
proof (cases ev)
  case (Deliver s)
  have "registry_inv (w\<lparr>sig_chans := fold (relay s) (handlers w) (sig_chans w)\<rparr>)"
    using assms by (simp add: registry_inv_def)
  then show ?thesis using Deliver by (simp add: apply_event_def deliver_eq)
next
  case Cancel
  from cancelAll_sweeps [OF assms] obtain D where
    "cancelAll w = Returned (w\<lparr>globalCanceller := (globalCanceller w)\<lparr>signals := []\<rparr>, done_chans := D\<rparr>)"
    by blast
  then show ?thesis
    using Cancel by (simp add: apply_event_def CancelAll_def fatal_event_def registry_inv_def)
qed

lemma registry_events:
  assumes "registry_inv w"
  shows "if list_ex (fatal_event d (handlers w)) es then \<exists>s. apply_events d es w = Terminated s
         else \<exists>w'. apply_events d es w = Returned w' \<and> registry_inv w' \<and>
                handlers w' = handlers w"
  using assms
proof (induction es arbitrary: w)
  case Nil
  then show ?case by simp
next
  case (Cons ev es)
  show ?case
  proof (cases "fatal_event d (handlers w) ev")
    case True
    with registry_event [OF Cons.prems, of d ev] show ?thesis by auto
  next
    case False
    with registry_event [OF Cons.prems, of d ev] obtain w1
      where 1: "apply_event d ev w = Returned w1" and 2: "registry_inv w1"
        and 3: "handlers w1 = handlers w"
      by auto
    from Cons.IH [OF 2]
    have "if list_ex (fatal_event d (handlers w)) es then \<exists>s. apply_events d es w1 = Terminated s
          else \<exists>w'. apply_events d es w1 = Returned w' \<and> registry_inv w' \<and>
                 handlers w' = handlers w"
      unfolding 3 .
    then show ?thesis
      using 1 False by (cases "list_ex (fatal_event d (handlers w)) es") simp_all
  qed
qed

lemma return_from_outcome:
  assumes "registry_inv w"
  shows "if list_ex (fatal_event d (handlers w)) es
         then \<exists>s. return_from d deferred es w = Terminated s
         else \<exists>w'. return_from d deferred es w = Returned w'"
  using registry_events [OF assms, of d es]
  by (cases "list_ex (fatal_event d (handlers w)) es") (auto simp: return_from_def)

text \<open>A call that sleeps in \<^verbatim>\<open>select\<close>, through its wake to its return.\<close>

lemma block_on_waiting:
  assumes "waiting_inv c finish uuid sigs w"
  shows "if list_ex (fatal_event d (handlers w)) es
         then \<exists>s rest. block_on d c finish es w = (Terminated s, rest) \<or>
                (\<exists>w'. block_on d c finish es w = (Returned w', rest) \<and>
                   return_from d deferred rest w' = Terminated s)
         else if list_ex (wake_event sigs) es
         then \<exists>w' w'' rest. block_on d c finish es w = (Returned w', rest) \<and>
                return_from d deferred rest w' = Returned w''
         else \<exists>w' rest. block_on d c finish es w = (Blocked w', rest) \<and>
                waiting_inv c finish uuid sigs w'"
  using assms
proof (induction es arbitrary: w)
  case Nil
  then show ?case by simp
next
  case (Cons ev es)
  show ?case
  proof (cases "fatal_event d (handlers w) ev")
    case True
    with waiting_event [OF Cons.prems, of d ev] show ?thesis by auto
  next
    case False
    with waiting_event [OF Cons.prems, of d ev] obtain w1
      where 1: "apply_event d ev w = Returned w1" and 3: "handlers w1 = handlers w"
        and 2: "if wake_event sigs ev then woken_inv c finish w1 else waiting_inv c finish uuid sigs w1"
      by auto
    show ?thesis
    proof (cases "wake_event sigs ev")
      case True
      with 2 have wk: "woken_inv c finish w1" by simp
      then have i1: "registry_inv w1" by (simp add: woken_inv_def)
      let ?w2 = "if ready_signal c w1 then recv_signal c w1 else w1"
      have b: "block_on d c finish (ev # es) w = (Returned ?w2, es)"
        using 1 wk by (auto simp: woken_inv_def)
      have i2: "registry_inv ?w2" and h2: "handlers ?w2 = handlers w"
        using i1 3 by (simp_all add: registry_inv_def recv_signal_def)
      from return_from_outcome [OF i2, of d es deferred]
      have "if list_ex (fatal_event d (handlers w)) es
            then \<exists>s. return_from d deferred es ?w2 = Terminated s
            else \<exists>w'. return_from d deferred es ?w2 = Returned w'"
        unfolding h2 .
      then show ?thesis
        using b True False by (cases "list_ex (fatal_event d (handlers w)) es") auto
    next
      case F: False
      with 2 have w: "waiting_inv c finish uuid sigs w1" by simp
      have b: "block_on d c finish (ev # es) w = block_on d c finish es w1"
        using 1 waiting_not_ready [OF w] by simp
      from Cons.IH [OF w] show ?thesis
        unfolding 3 b using F False by (auto split: if_splits)
    qed
  qed
qed

text \<open>
  An event makes at most one of the two cases ready for a call that was waiting, so the
  order in which \<open>block_on\<close> looks at them gives neither a priority.
\<close>

lemma one_case_per_event:
  assumes "waiting_inv c finish uuid sigs w" and "apply_event d ev w = Returned w'"
  shows "\<not> (ready_signal c w' \<and> ready_finish finish w')"
proof (cases ev)
  case (Deliver s)
  with assms(2) have "done_chans w' = done_chans w"
    by (auto simp: apply_event_def deliver_eq split: if_splits)
  then have "ready_finish finish w' = ready_finish finish w" by (simp add: ready_finish_def)
  then show ?thesis using waiting_not_ready(2) [OF assms(1)] by simp
next
  case Cancel
  with cancel_waiting [OF assms(1)] assms(2) show ?thesis by (auto simp: apply_event_def)
qed

subsection \<open>The outcome of a call\<close>

lemma registry_inv_cong:
  "globalCanceller w1 = globalCanceller w2 \<Longrightarrow> done_chans w1 = done_chans w2 \<Longrightarrow>
   registry_inv w1 = registry_inv w2"
  by (simp add: registry_inv_def)

lemma at_select_fields [simp]:
  "handlers (at_select sigs rs uuid w) = handlers w @ [(length (sig_chans w), sigs)]"
  "sig_chans (at_select sigs rs uuid w) = sig_chans w @ [(1, [])]"
  "done_chans (at_select sigs rs uuid w) = done_chans w @ [False]"
  "regs (at_select sigs rs uuid w) = AList.update uuid (length (done_chans w)) (regs w)"
  by (simp_all add: at_select_def)

lemma at_select_registry:
  "globalCanceller (at_select sigs rs uuid w) = globalCanceller (snd (register_finish uuid w))"
  "done_chans (at_select sigs rs uuid w) = done_chans (snd (register_finish uuid w))"
  by (simp_all add: at_select_def register_finish_def make_done_chan_def addChannel_def)

lemma registry_inv_at_select:
  assumes "registry_inv w"
  shows "registry_inv (at_select sigs rs uuid w)"
  using registry_inv_register [OF assms, of uuid]
    registry_inv_cong [OF at_select_registry, of sigs rs uuid w]
  by simp

lemma handlers_inv_at_select:
  assumes "handlers_inv w"
  shows "handlers_inv (at_select sigs rs uuid w)"
  using assms by (auto simp: handlers_inv_def list_all_iff)

lemma at_select_waiting:
  assumes inv: "registry_inv w" and hinv: "handlers_inv w"
  shows "waiting_inv (length (sig_chans w)) (length (done_chans w)) uuid sigs
           (at_select sigs rs uuid w)"
proof -
  have old: "filter (\<lambda>h. fst h = length (sig_chans w)) (handlers w) = []"
    using hinv by (auto simp: handlers_inv_def list_all_iff filter_empty_conv)
  show ?thesis
    unfolding waiting_inv_def
    using registry_inv_at_select [OF inv, of sigs rs uuid] old by (simp add: update_conv')
qed

lemma select_wait_woken:
  assumes "woken_inv c finish w"
  shows "\<exists>w'. select_wait d c finish pick es w = (Returned w', es) \<and> registry_inv w' \<and>
           handlers w' = handlers w"
proof -
  have "registry_inv (recv_signal c w)" and "handlers (recv_signal c w) = handlers w"
    using assms by (simp_all add: woken_inv_def registry_inv_def recv_signal_def)
  then show ?thesis
    using assms by (auto simp: woken_inv_def select_wait_def)
qed

lemma select_wait_waiting:
  assumes "waiting_inv c finish uuid sigs w"
  shows "select_wait d c finish pick es w = block_on d c finish es w"
  using waiting_not_ready [OF assms] by (simp add: select_wait_def)

lemma wait_and_return_woken:
  assumes "woken_inv c finish w"
  shows "if list_ex (fatal_event d (handlers w)) es
         then \<exists>s. wait_and_return d c finish pick deferred es w = Terminated s
         else \<exists>w'. wait_and_return d c finish pick deferred es w = Returned w'"
proof -
  from select_wait_woken [OF assms, of d pick es] obtain w1
    where sw: "select_wait d c finish pick es w = (Returned w1, es)"
      and i1: "registry_inv w1" and h1: "handlers w1 = handlers w"
    by blast
  from return_from_outcome [OF i1, of d es deferred] show ?thesis
    unfolding h1 using sw by (simp add: wait_and_return_def)
qed

lemma wait_and_return_waiting:
  assumes "waiting_inv c finish uuid sigs w"
  shows "if list_ex (fatal_event d (handlers w)) es
         then \<exists>s. wait_and_return d c finish pick deferred es w = Terminated s
         else if list_ex (wake_event sigs) es
         then \<exists>w'. wait_and_return d c finish pick deferred es w = Returned w'
         else \<exists>w'. wait_and_return d c finish pick deferred es w = Blocked w'"
  using block_on_waiting [OF assms, of d es deferred]
  unfolding wait_and_return_def select_wait_waiting [OF assms]
  by (auto split: if_splits)

text \<open>
  The outcome of a call made in a well-formed state is the one the events hold for it:
  it never panics.
\<close>

lemma await_outcome:
  assumes inv: "registry_inv w" and hinv: "handlers_inv w"
  shows "case fate_of sigs e w of
           Wakes \<Rightarrow> \<exists>w'. AwaitKillSignals sigs rs e w = Returned w'
         | Waits \<Rightarrow> \<exists>w'. AwaitKillSignals sigs rs e w = Blocked w'
         | Dies \<Rightarrow> \<exists>s. AwaitKillSignals sigs rs e w = Terminated s"
proof -
  let ?c = "length (sig_chans w)" and ?f = "length (done_chans w)" and ?d = "unwatched e"
  let ?w3 = "at_select sigs rs (new_uuid e) w"
  let ?hs = "handlers w @ [(?c, sigs)]"
  let ?ds = "rev (fst (invoke_in_order rs (app w)))"
  have wt: "waiting_inv ?c ?f (new_uuid e) sigs ?w3"
    using inv hinv by (rule at_select_waiting)
  have h3: "handlers ?w3 = ?hs" by simp
  note ev = waiting_events [OF wt, of ?d "before_select e", unfolded h3]
  show ?thesis
  proof (cases "list_ex (fatal_event ?d ?hs) (before_select e)")
    case True
    with ev obtain s where "apply_events ?d (before_select e) ?w3 = Terminated s" by auto
    then show ?thesis
      using True by (simp add: await_cases fate_of_def)
  next
    case False
    with ev obtain w4
      where e4: "apply_events ?d (before_select e) ?w3 = Returned w4"
        and h4: "handlers w4 = ?hs"
        and w4: "if list_ex (wake_event sigs) (before_select e) then woken_inv ?c ?f w4
                 else waiting_inv ?c ?f (new_uuid e) sigs w4"
      by auto
    have aw: "AwaitKillSignals sigs rs e w =
                wait_and_return ?d ?c ?f (pick_signal e) ?ds (during_wait e) w4"
      using e4 by (simp add: await_cases)
    show ?thesis
    proof (cases "list_ex (wake_event sigs) (before_select e)")
      case True
      with w4 have "woken_inv ?c ?f w4" by simp
      from wait_and_return_woken [OF this, of ?d "during_wait e" "pick_signal e" ?ds]
      show ?thesis
        unfolding h4 aw using True False
        by (cases "list_ex (fatal_event ?d ?hs) (during_wait e)") (simp_all add: fate_of_def)
    next
      case F: False
      with w4 have "waiting_inv ?c ?f (new_uuid e) sigs w4" by simp
      from wait_and_return_waiting [OF this, of ?d "during_wait e" "pick_signal e" ?ds]
      show ?thesis
        unfolding h4 aw using F False
        by (cases "list_ex (fatal_event ?d ?hs) (during_wait e)";
            cases "list_ex (wake_event sigs) (during_wait e)") (simp_all add: fate_of_def)
    qed
  qed
qed

text \<open>What the events hold, read off the list of events.\<close>

lemma fate_of_wakes:
  "fate_of sigs e w = Wakes \<Longrightarrow> list_ex (wake_event sigs) (before_select e @ during_wait e)"
  by (simp add: fate_of_def split: if_splits)

lemma fate_of_safe:
  "\<not> list_ex (fatal_event (unwatched e) (handlers w @ [(length (sig_chans w), sigs)]))
       (before_select e @ during_wait e) \<Longrightarrow>
   fate_of sigs e w =
     (if list_ex (wake_event sigs) (before_select e @ during_wait e) then Wakes else Waits)"
  by (simp add: fate_of_def)

lemma fate_of_pick [simp]: "fate_of sigs (e\<lparr>pick_signal := pick\<rparr>) w = fate_of sigs e w"
  by (simp add: fate_of_def)

lemma wake_by_cancel: "Cancel \<in> set es \<Longrightarrow> list_ex (wake_event sigs) es"
  unfolding list_ex_iff by (rule bexI [of _ Cancel]) (simp_all add: wake_event_def)

lemma wake_by_signal: "Deliver s \<in> set es \<Longrightarrow> wants sigs s \<Longrightarrow> list_ex (wake_event sigs) es"
  unfolding list_ex_iff by (rule bexI [of _ "Deliver s"]) (simp_all add: wake_event_def)

text \<open>
  A property of the state that every event of the call keeps, and that taking a signal
  out of a channel and the callbacks keep, holds of the state the call ends in.
\<close>

lemma holds_apply_events:
  assumes "\<And>w ev. ev \<in> set es \<Longrightarrow> P w \<Longrightarrow> holds P (apply_event d ev w)" and "P w"
  shows "holds P (apply_events d es w)"
  using assms
proof (induction es arbitrary: w)
  case Nil
  then show ?case by simp
next
  case (Cons ev es)
  have step: "holds P (apply_event d ev w)" using Cons.prems by simp
  show ?case
  proof (cases "apply_event d ev w")
    case (Returned w1)
    with step have "P w1" by simp
    then have "holds P (apply_events d es w1)" using Cons.IH Cons.prems(1) by simp
    then show ?thesis using Returned by simp
  next
    case (Blocked w1)
    then show ?thesis using step by simp
  next
    case (Panicked p w1)
    then show ?thesis using step by simp
  next
    case (Terminated s)
    then show ?thesis by simp
  qed
qed

lemma holds_block_on:
  assumes "\<And>w ev. ev \<in> set es \<Longrightarrow> P w \<Longrightarrow> holds P (apply_event d ev w)"
    and "\<And>w. P w \<Longrightarrow> P (recv_signal c w)" and "P w"
  shows "holds P (fst (block_on d c finish es w)) \<and>
         set (snd (block_on d c finish es w)) \<subseteq> set es"
  using assms
proof (induction es arbitrary: w)
  case Nil
  then show ?case by simp
next
  case (Cons ev es)
  have step: "holds P (apply_event d ev w)" using Cons.prems by simp
  show ?case
  proof (cases "apply_event d ev w")
    case (Returned w1)
    with step have p1: "P w1" by simp
    then have "holds P (fst (block_on d c finish es w1)) \<and>
               set (snd (block_on d c finish es w1)) \<subseteq> set es"
      using Cons.IH Cons.prems(1,2) by simp
    then show ?thesis using Returned p1 Cons.prems(2) by auto
  next
    case (Blocked w1)
    then show ?thesis using step by auto
  next
    case (Panicked p w1)
    then show ?thesis using step by auto
  next
    case (Terminated s)
    then show ?thesis by auto
  qed
qed

lemma holds_select_wait:
  assumes "\<And>w ev. ev \<in> set es \<Longrightarrow> P w \<Longrightarrow> holds P (apply_event d ev w)"
    and "\<And>w. P w \<Longrightarrow> P (recv_signal c w)" and "P w"
  shows "holds P (fst (select_wait d c finish pick es w)) \<and>
         set (snd (select_wait d c finish pick es w)) \<subseteq> set es"
  using assms holds_block_on [of es P d c w finish] by (simp add: select_wait_def)

lemma holds_return_from:
  assumes "\<And>w ev. ev \<in> set es \<Longrightarrow> P w \<Longrightarrow> holds P (apply_event d ev w)"
    and "\<And>w s. P w \<Longrightarrow> P (w\<lparr>app := s\<rparr>)" and "P w"
  shows "holds P (return_from d deferred es w)"
  using holds_apply_events [of es P d w, OF assms(1,3)] assms(2)
  by (cases "apply_events d es w") (simp_all add: return_from_def)

lemma holds_wait_and_return:
  assumes step: "\<And>w ev. ev \<in> set es \<Longrightarrow> P w \<Longrightarrow> holds P (apply_event d ev w)"
    and recv: "\<And>w. P w \<Longrightarrow> P (recv_signal c w)"
    and app: "\<And>w s. P w \<Longrightarrow> P (w\<lparr>app := s\<rparr>)" and "P w"
  shows "holds P (wait_and_return d c finish pick deferred es w)"
proof -
  obtain r rest where sw: "select_wait d c finish pick es w = (r, rest)"
    by (cases "select_wait d c finish pick es w")
  from holds_select_wait [of es P d c w finish pick, OF step recv \<open>P w\<close>] sw
  have r: "holds P r" and sub: "set rest \<subseteq> set es" by simp_all
  show ?thesis
  proof (cases r)
    case (Returned w1)
    with r have "P w1" by simp
    then have "holds P (return_from d deferred rest w1)"
      using step sub app by (intro holds_return_from) auto
    then show ?thesis using sw Returned by (simp add: wait_and_return_def)
  next
    case (Blocked w1)
    then show ?thesis using sw r by (simp add: wait_and_return_def)
  next
    case (Panicked p w1)
    then show ?thesis using sw r by (simp add: wait_and_return_def)
  next
    case (Terminated s)
    then show ?thesis using sw by (simp add: wait_and_return_def)
  qed
qed

lemma holds_await:
  assumes step: "\<And>w ev. ev \<in> set (before_select e @ during_wait e) \<Longrightarrow> P w \<Longrightarrow>
                    holds P (apply_event (unwatched e) ev w)"
    and recv: "\<And>w c. P w \<Longrightarrow> P (recv_signal c w)"
    and app: "\<And>w s. P w \<Longrightarrow> P (w\<lparr>app := s\<rparr>)"
    and start: "P (at_select sigs rs (new_uuid e) w)"
  shows "holds P (AwaitKillSignals sigs rs e w)"
proof -
  let ?d = "unwatched e"
  let ?r = "apply_events ?d (before_select e) (at_select sigs rs (new_uuid e) w)"
  have r: "holds P ?r"
    using step start by (intro holds_apply_events) simp_all
  show ?thesis
  proof (cases ?r)
    case (Returned w4)
    with r have p4: "P w4" by simp
    have "holds P (wait_and_return ?d (length (sig_chans w)) (length (done_chans w))
            (pick_signal e) (rev (fst (invoke_in_order rs (app w)))) (during_wait e) w4)"
      using step recv app p4 by (intro holds_wait_and_return) simp_all
    then show ?thesis using Returned by (simp add: await_cases)
  next
    case (Blocked w4)
    then show ?thesis using r by (simp add: await_cases)
  next
    case (Panicked p w4)
    then show ?thesis using r by (simp add: await_cases)
  next
    case (Terminated s)
    then show ?thesis by (simp add: await_cases)
  qed
qed

text \<open>Signals leave the registry and the closed flags alone.\<close>

lemma same_registry_deliver:
  "same_registry w0 w \<Longrightarrow> holds (same_registry w0) (deliver d s w)"
  by (simp add: deliver_eq same_registry_def)

lemma await_frame:
  assumes "Cancel \<notin> set (before_select e @ during_wait e)"
  shows "holds (same_registry (at_select sigs rs (new_uuid e) w)) (AwaitKillSignals sigs rs e w)"
proof (rule holds_await)
  fix w' ev
  assume "ev \<in> set (before_select e @ during_wait e)"
    and s: "same_registry (at_select sigs rs (new_uuid e) w) w'"
  with assms obtain s' where "ev = Deliver s'" by (cases ev) auto
  then show "holds (same_registry (at_select sigs rs (new_uuid e) w)) (apply_event (unwatched e) ev w')"
    using same_registry_deliver [OF s] by (simp add: apply_event_def)
qed (simp_all add: same_registry_def recv_signal_def)

text \<open>
  The signal handlers and the registry of a well-formed state are well formed again
  after every event and after the call, whatever its outcome.
\<close>

lemma registry_inv_event:
  assumes "registry_inv w"
  shows "holds registry_inv (apply_event d ev w)"
proof (cases ev)
  case (Deliver s)
  have "registry_inv (w\<lparr>sig_chans := fold (relay s) (handlers w) (sig_chans w)\<rparr>)"
    using assms by (simp add: registry_inv_def)
  then show ?thesis using Deliver by (simp add: apply_event_def deliver_eq)
next
  case Cancel
  then show ?thesis
    using registry_inv_cancelAll [OF assms] by (auto simp: apply_event_def CancelAll_def)
qed

lemma handlers_inv_event:
  assumes "handlers_inv w"
  shows "holds handlers_inv (apply_event d ev w)"
  using untouched_apply_event [of w d ev]
proof (rule holds_mono)
  fix w' assume "untouched w w'"
  then show "handlers_inv w'" using assms by (simp add: untouched_def handlers_inv_def)
qed

text \<open>Every outcome of a call that leaves a state leaves a well-formed one.\<close>

lemma await_well_formed:
  assumes inv: "registry_inv w" and hinv: "handlers_inv w"
  shows "holds (\<lambda>w'. registry_inv w' \<and> handlers_inv w') (AwaitKillSignals sigs rs e w)"
proof (rule holds_await)
  fix w' ev
  assume "registry_inv w' \<and> handlers_inv w'"
  then have "holds registry_inv (apply_event (unwatched e) ev w')"
    and "holds handlers_inv (apply_event (unwatched e) ev w')"
    using registry_inv_event handlers_inv_event by blast+
  then show "holds (\<lambda>w'. registry_inv w' \<and> handlers_inv w') (apply_event (unwatched e) ev w')"
    by (cases "apply_event (unwatched e) ev w'") simp_all
next
  show "registry_inv (at_select sigs rs (new_uuid e) w) \<and>
        handlers_inv (at_select sigs rs (new_uuid e) w)"
    using registry_inv_at_select [OF inv] handlers_inv_at_select [OF hinv] by blast
qed (simp_all add: registry_inv_def handlers_inv_def recv_signal_def)


lemmas fate_unfold =
  fate_of_def fatal_event_def wake_event_def watched_def wants_def catchable_def
  init_def

text \<open>
  C1. A call made in a well-formed state, when the events hold a wake for it (a wake
  event comes, and no signal ends the process before the call has seen it), returns,
  and the state it hands back is the one reached by running, on the state the runners
  left, every callback the runners returned: each of them once, the callback of the
  last runner first and that of the first runner last. The return carries the state
  after the last callback, so control is back with the caller only when all of them
  are done. For runners that log (A, B, C), the log reads start A, start B, start C,
  stop C, stop B, stop A.
\<close>

theorem shutdowns_run_once_in_reverse:
  assumes "registry_inv w" and "handlers_inv w" and "fate_of sigs e w = Wakes"
  shows "\<exists>w'. AwaitKillSignals sigs rs e w = Returned w' \<and>
           app w' = foldr (\<lambda>shutdown s. shutdown s) (fst (invoke_in_order rs (app w)))
                      (snd (invoke_in_order rs (app w))) \<and>
           (\<forall>names. rs = map logging_runner names \<longrightarrow>
              app w' = app w @ map started names @ map stopped (rev names))"
proof -
  from await_outcome [OF assms(1,2), of sigs rs e] assms(3) obtain w'
    where r: "AwaitKillSignals sigs rs e w = Returned w'" by auto
  from returned_after_callbacks [OF r]
  have g: "app w' = foldr (\<lambda>shutdown s. shutdown s) (fst (invoke_in_order rs (app w)))
                    (snd (invoke_in_order rs (app w)))" .
  then have "\<forall>names. rs = map logging_runner names \<longrightarrow>
              app w' = app w @ map started names @ map stopped (rev names)"
    by (simp add: invoke_logging foldr_logging)
  with r g show ?thesis by blast
qed

theorem shutdowns_run_once_in_reverse_witness:
  "registry_inv (init ([] :: string list)) \<and> handlers_inv (init ([] :: string list)) \<and>
   fate_of [SIGINT, SIGTERM] cancelled_later (init ([] :: string list)) = Wakes \<and>
   AwaitKillSignals [SIGINT, SIGTERM] (map logging_runner [''A'', ''B'', ''C'']) cancelled_later (init []) =
     Returned \<lparr>globalCanceller = \<lparr>signals = []\<rparr>, done_chans = [True],
               sig_chans = [(1, [])], handlers = [(0, [SIGINT, SIGTERM])],
               app = [started ''A'', started ''B'', started ''C'',
                      stopped ''C'', stopped ''B'', stopped ''A'']\<rparr> \<and>
   [started ''A'', started ''B'', started ''C'', stopped ''C'', stopped ''B'', stopped ''A''] =
     app (init []) @ map started [''A'', ''B'', ''C''] @ map stopped (rev [''A'', ''B'', ''C''])"
proof -
  let ?W = "\<lparr>globalCanceller = \<lparr>signals = []\<rparr>, done_chans = [True],
              sig_chans = [(1, [])], handlers = [(0, [SIGINT, SIGTERM])],
              app = [started ''A'', started ''B'', started ''C'',
                     stopped ''C'', stopped ''B'', stopped ''A'']\<rparr>"
  have i: "registry_inv (init ([] :: string list))" "handlers_inv (init ([] :: string list))"
    by (simp_all add: registry_inv_def handlers_inv_def init_def)
  have yes: "fate_of [SIGINT, SIGTERM] cancelled_later (init ([] :: string list)) = Wakes"
    by (simp add: fate_unfold cancelled_later_def)
  have h: "AwaitKillSignals [SIGINT, SIGTERM] (map logging_runner [''A'', ''B'', ''C''])
             cancelled_later (init []) = Returned ?W"
    by (simp add: await_unfold cancelled_later_def)
  from shutdowns_run_once_in_reverse [OF i yes, of "map logging_runner [''A'', ''B'', ''C'']"]
  obtain w' where r: "AwaitKillSignals [SIGINT, SIGTERM] (map logging_runner [''A'', ''B'', ''C''])
                        cancelled_later (init []) = Returned w'"
    and a: "\<forall>names. map logging_runner [''A'', ''B'', ''C''] = map logging_runner names \<longrightarrow>
              app w' = app (init []) @ map started names @ map stopped (rev names)"
    by blast
  from r h have w: "w' = ?W" by simp
  from a have "app w' = app (init []) @ map started [''A'', ''B'', ''C''] @
                 map stopped (rev [''A'', ''B'', ''C''])"
    by blast
  then have l: "[started ''A'', started ''B'', started ''C'', stopped ''C'', stopped ''B'', stopped ''A''] =
      app (init []) @ map started [''A'', ''B'', ''C''] @ map stopped (rev [''A'', ''B'', ''C''])"
    unfolding w by simp
  from i yes h l show ?thesis by blast
qed

text \<open>
  C4. A call made in a well-formed state has one outcome, and it never panics. It is a
  return exactly when the events hold a wake for it: a signal of the watched set has
  been delivered, or \<open>CancelAll\<close> has been called, since the call subscribed and
  registered, and no signal has ended the process before the call saw that. In
  particular a call that has returned has had a wake event. As long as nothing of the
  kind has happened the call is blocked, and when a signal ends the process first the
  call does not return. Where no signal ends the process either source alone is enough,
  and the case \<^verbatim>\<open>select\<close> picks when both are ready makes no difference to whether the
  call returns.
\<close>

theorem returns_exactly_when_woken:
  assumes "registry_inv w" and "handlers_inv w"
  shows "((\<exists>w'. AwaitKillSignals sigs rs e w = Returned w') \<longleftrightarrow> fate_of sigs e w = Wakes) \<and>
         ((\<exists>w'. AwaitKillSignals sigs rs e w = Blocked w') \<longleftrightarrow> fate_of sigs e w = Waits) \<and>
         ((\<exists>s. AwaitKillSignals sigs rs e w = Terminated s) \<longleftrightarrow> fate_of sigs e w = Dies) \<and>
         (\<forall>p w'. AwaitKillSignals sigs rs e w \<noteq> Panicked p w') \<and>
         ((\<exists>w'. AwaitKillSignals sigs rs e w = Returned w') \<longrightarrow>
            list_ex (wake_event sigs) (before_select e @ during_wait e)) \<and>
         (\<not> list_ex (fatal_event (unwatched e) (handlers w @ [(length (sig_chans w), sigs)]))
              (before_select e @ during_wait e) \<longrightarrow>
            (Cancel \<in> set (before_select e @ during_wait e) \<longrightarrow>
               (\<exists>w'. AwaitKillSignals sigs rs e w = Returned w')) \<and>
            (\<forall>s. Deliver s \<in> set (before_select e @ during_wait e) \<and> wants sigs s \<longrightarrow>
               (\<exists>w'. AwaitKillSignals sigs rs e w = Returned w'))) \<and>
         (\<forall>pick. (\<exists>w'. AwaitKillSignals sigs rs (e\<lparr>pick_signal := pick\<rparr>) w = Returned w') \<longleftrightarrow>
                 (\<exists>w'. AwaitKillSignals sigs rs e w = Returned w'))"
proof -
  let ?es = "before_select e @ during_wait e"
  let ?A = "AwaitKillSignals sigs rs e w"
  note out = await_outcome [OF assms, of sigs rs e]
  have a: "(\<exists>w'. ?A = Returned w') \<longleftrightarrow> fate_of sigs e w = Wakes"
    using out by (cases "fate_of sigs e w") auto
  have b: "(\<exists>w'. ?A = Blocked w') \<longleftrightarrow> fate_of sigs e w = Waits"
    using out by (cases "fate_of sigs e w") auto
  have c: "(\<exists>s. ?A = Terminated s) \<longleftrightarrow> fate_of sigs e w = Dies"
    using out by (cases "fate_of sigs e w") auto
  have d: "\<forall>p w'. ?A \<noteq> Panicked p w'"
    using out by (cases "fate_of sigs e w") auto
  have f: "(\<exists>w'. ?A = Returned w') \<longrightarrow> list_ex (wake_event sigs) ?es"
    using a fate_of_wakes by blast
  have g: "\<not> list_ex (fatal_event (unwatched e) (handlers w @ [(length (sig_chans w), sigs)])) ?es \<longrightarrow>
            (Cancel \<in> set ?es \<longrightarrow> (\<exists>w'. ?A = Returned w')) \<and>
            (\<forall>s. Deliver s \<in> set ?es \<and> wants sigs s \<longrightarrow> (\<exists>w'. ?A = Returned w'))"
  proof
    assume "\<not> list_ex (fatal_event (unwatched e) (handlers w @ [(length (sig_chans w), sigs)])) ?es"
    then have fo: "fate_of sigs e w = (if list_ex (wake_event sigs) ?es then Wakes else Waits)"
      by (rule fate_of_safe)
    have 1: "Cancel \<in> set ?es \<longrightarrow> (\<exists>w'. ?A = Returned w')"
      using fo a wake_by_cancel [of ?es sigs] by auto
    have 2: "\<forall>s. Deliver s \<in> set ?es \<and> wants sigs s \<longrightarrow> (\<exists>w'. ?A = Returned w')"
      using fo a wake_by_signal [of _ ?es sigs] by auto
    from 1 2 show "(Cancel \<in> set ?es \<longrightarrow> (\<exists>w'. ?A = Returned w')) \<and>
            (\<forall>s. Deliver s \<in> set ?es \<and> wants sigs s \<longrightarrow> (\<exists>w'. ?A = Returned w'))"
      by blast
  qed
  have h: "(\<exists>w'. AwaitKillSignals sigs rs (e\<lparr>pick_signal := pick\<rparr>) w = Returned w') \<longleftrightarrow>
           (\<exists>w'. ?A = Returned w')" for pick
  proof -
    from await_outcome [OF assms, of sigs rs "e\<lparr>pick_signal := pick\<rparr>"]
    have "(\<exists>w'. AwaitKillSignals sigs rs (e\<lparr>pick_signal := pick\<rparr>) w = Returned w') \<longleftrightarrow>
          fate_of sigs e w = Wakes"
      by (cases "fate_of sigs e w") auto
    with a show ?thesis by simp
  qed
  show ?thesis using a b c d f g h by blast
qed

theorem returns_exactly_when_woken_witness:
  "registry_inv (init ([] :: string list)) \<and> handlers_inv (init ([] :: string list)) \<and>
   fate_of [SIGINT, SIGTERM] cancelled_later (init ([] :: string list)) = Wakes \<and>
   (\<exists>w'. AwaitKillSignals [SIGINT, SIGTERM] (map logging_runner [''A'', ''B'']) cancelled_later
            (init []) = Returned w') \<and>
   fate_of [SIGINT, SIGTERM] never_signalled (init ([] :: string list)) = Waits \<and>
   (\<exists>w'. AwaitKillSignals [SIGINT, SIGTERM] (map logging_runner [''A'', ''B'']) never_signalled
            (init []) = Blocked w') \<and>
   fate_of [SIGINT, SIGTERM] hung_up (init ([] :: string list)) = Dies \<and>
   AwaitKillSignals [SIGINT, SIGTERM] (map logging_runner [''A'', ''B'']) hung_up (init []) =
     Terminated SIGHUP"
proof -
  have i: "registry_inv (init ([] :: string list))" "handlers_inv (init ([] :: string list))"
    by (simp_all add: registry_inv_def handlers_inv_def init_def)
  have yes: "fate_of [SIGINT, SIGTERM] cancelled_later (init ([] :: string list)) = Wakes"
    by (simp add: fate_unfold cancelled_later_def)
  have no: "fate_of [SIGINT, SIGTERM] never_signalled (init ([] :: string list)) = Waits"
    by (simp add: fate_unfold never_signalled_def)
  have dead: "fate_of [SIGINT, SIGTERM] hung_up (init ([] :: string list)) = Dies"
    by (simp add: fate_unfold hung_up_def)
  note t = returns_exactly_when_woken [OF i, of "[SIGINT, SIGTERM]" "map logging_runner [''A'', ''B'']"]
  from t [of cancelled_later] yes
  have a: "\<exists>w'. AwaitKillSignals [SIGINT, SIGTERM] (map logging_runner [''A'', ''B'']) cancelled_later
            (init []) = Returned w'"
    by blast
  from t [of never_signalled] no
  have b: "\<exists>w'. AwaitKillSignals [SIGINT, SIGTERM] (map logging_runner [''A'', ''B'']) never_signalled
            (init []) = Blocked w'"
    by blast
  from t [of hung_up] dead
  have "\<exists>s. AwaitKillSignals [SIGINT, SIGTERM] (map logging_runner [''A'', ''B'']) hung_up
            (init []) = Terminated s"
    by blast
  moreover have "AwaitKillSignals [SIGINT, SIGTERM] (map logging_runner [''A'', ''B'']) hung_up
            (init []) = Terminated SIGHUP"
    by (simp add: await_unfold hung_up_def)
  ultimately have c: "AwaitKillSignals [SIGINT, SIGTERM] (map logging_runner [''A'', ''B'']) hung_up
            (init []) = Terminated SIGHUP"
    by simp
  from i yes no dead a b c show ?thesis by blast
qed

text \<open>
  C8. A call that is woken by a signal (the events hold a wake for it, and there has been
  no \<open>CancelAll\<close> since it registered) returns with its entry still in the registry: the
  map is the one the registration left (the channel \<open>finish\<close> under the call's
  identifier, every other key as before the call), and \<open>finish\<close> is still open. The
  entry stays until a later \<open>CancelAll\<close>, which closes \<open>finish\<close> and empties the map.
\<close>

theorem signal_exit_leaves_entry:
  assumes "registry_inv w" and "handlers_inv w"
    and "Cancel \<notin> set (before_select e @ during_wait e)"
    and "fate_of sigs e w = Wakes"
  shows "\<exists>w'. AwaitKillSignals sigs rs e w = Returned w' \<and>
           (\<exists>s. Deliver s \<in> set (before_select e @ during_wait e) \<and> wants sigs s) \<and>
           regs w' = AList.update (new_uuid e) (length (done_chans w)) (regs w) \<and>
           map_of (regs w') (new_uuid e) = Some (length (done_chans w)) \<and>
           (\<forall>k. k \<noteq> new_uuid e \<longrightarrow> map_of (regs w') k = map_of (regs w) k) \<and>
           done_chans w' = done_chans w @ [False] \<and>
           (\<exists>w''. CancelAll w' = Returned w'' \<and> regs w'' = [] \<and>
                   done_chans w'' ! length (done_chans w))"
proof -
  let ?es = "before_select e @ during_wait e" and ?f = "length (done_chans w)"
  let ?w3 = "at_select sigs rs (new_uuid e) w"
  from await_outcome [OF assms(1,2), of sigs rs e] assms(4) obtain w'
    where ret: "AwaitKillSignals sigs rs e w = Returned w'" by auto
  from fate_of_wakes [OF assms(4)] obtain ev
    where "ev \<in> set ?es" and "wake_event sigs ev"
    unfolding list_ex_iff by blast
  with assms(3) have by_signal: "\<exists>s. Deliver s \<in> set ?es \<and> wants sigs s"
    by (cases ev) (auto simp: wake_event_def)
  from await_frame [OF assms(3), of sigs rs w] ret
  have g: "globalCanceller w' = globalCanceller ?w3" and d3: "done_chans w' = done_chans ?w3"
    by (simp_all add: same_registry_def)
  have r: "regs w' = AList.update (new_uuid e) ?f (regs w)"
    using g by simp
  have d: "done_chans w' = done_chans w @ [False]"
    using d3 by simp
  have m: "map_of (regs w') (new_uuid e) = Some ?f"
    and o: "\<forall>k. k \<noteq> new_uuid e \<longrightarrow> map_of (regs w') k = map_of (regs w) k"
    using r by (simp_all add: update_conv')
  have inv': "registry_inv w'"
    using registry_inv_at_select [OF assms(1), of sigs rs "new_uuid e"]
      registry_inv_cong [OF g d3] by simp
  from cancelAll_sweeps [OF inv'] obtain D where
    c: "cancelAll w' = Returned (w'\<lparr>globalCanceller := (globalCanceller w')\<lparr>signals := []\<rparr>, done_chans := D\<rparr>)"
    and nth: "\<forall>i < length (done_chans w'). D ! i = (done_chans w' ! i \<or> i \<in> snd ` set (regs w'))"
    by blast
  have "(new_uuid e, ?f) \<in> set (regs w')" using m by (rule map_of_SomeD)
  then have "?f \<in> snd ` set (regs w')" by force
  then have "D ! ?f" using nth d by simp
  then have s: "\<exists>w''. CancelAll w' = Returned w'' \<and> regs w'' = [] \<and> done_chans w'' ! ?f"
    using c by (simp add: CancelAll_def)
  show ?thesis using ret by_signal r m o d s by blast
qed

theorem signal_exit_leaves_entry_witness:
  "registry_inv two_waiting \<and> handlers_inv two_waiting \<and>
   Cancel \<notin> set (before_select interrupted @ during_wait interrupted) \<and>
   fate_of [SIGINT, SIGTERM] interrupted two_waiting = Wakes \<and>
   AwaitKillSignals [SIGINT, SIGTERM] [] interrupted two_waiting =
     Returned \<lparr>globalCanceller = \<lparr>signals = [(''u1'', 0), (''u2'', 2), (''u3'', 3)]\<rparr>,
               done_chans = [False, True, False, False], sig_chans = [(1, [])],
               handlers = [(0, [SIGINT, SIGTERM])], app = ()\<rparr>"
proof -
  have i: "registry_inv two_waiting" "handlers_inv two_waiting"
    by (simp_all add: registry_inv_def handlers_inv_def two_waiting_def)
  have nc: "Cancel \<notin> set (before_select interrupted @ during_wait interrupted)"
    by (simp add: interrupted_def)
  have yes: "fate_of [SIGINT, SIGTERM] interrupted two_waiting = Wakes"
    by (simp add: fate_unfold interrupted_def two_waiting_def)
  from signal_exit_leaves_entry [OF i nc yes, of "[]"]
  have "\<exists>w'. AwaitKillSignals [SIGINT, SIGTERM] [] interrupted two_waiting = Returned w' \<and>
          regs w' = AList.update (new_uuid interrupted) (length (done_chans two_waiting)) (regs two_waiting)"
    by blast
  moreover have "AwaitKillSignals [SIGINT, SIGTERM] [] interrupted two_waiting =
     Returned \<lparr>globalCanceller = \<lparr>signals = [(''u1'', 0), (''u2'', 2), (''u3'', 3)]\<rparr>,
               done_chans = [False, True, False, False], sig_chans = [(1, [])],
               handlers = [(0, [SIGINT, SIGTERM])], app = ()\<rparr>"
    by (simp add: await_unfold interrupted_def two_waiting_def)
  ultimately show ?thesis using i nc yes by simp
qed








end
